theory Spec2Isabelle
  imports Main "HOL-Library.Sublist" "HOL-Library.Char_ord" "HOL-Library.List_Lexorder"
begin

section \<open>The deck codec of slay-the-relics (backend/api/deck.go)\<close>

text \<open>
  Go byte slices and Go strings are both modelled as \<open>string\<close> (a list of 8-bit
  characters), so \<open>bytes.X\<close> and \<open>strings.X\<close> share one HOL function. Go compares strings
  bytewise and lexicographically, which is the order of \<open>Char_ord\<close> and \<open>List_Lexorder\<close>.
  A call that panics, and a loop that does not return, are outcomes of their own.
\<close>

datatype error =
    InvalidDeck
  | ErrSyntax string
  | ErrRange string
  | CardIndexOutOfBounds
  | CardNotFound

datatype 'a outcome = Hangs | Panics | Returns 'a

subsection \<open>Library operations the codec calls\<close>

text \<open>\<open>bytes.Index\<close> / \<open>strings.Index\<close>: first position of \<open>sep\<close> in \<open>s\<close>, or \<open>-1\<close>.\<close>

fun index :: "string \<Rightarrow> string \<Rightarrow> int" where
  "index [] sep = (if sep = [] then 0 else - 1)"
| "index (c # cs) sep =
     (if prefix sep (c # cs) then 0
      else (let r = index cs sep in if r < 0 then - 1 else r + 1))"

lemma index_bound: "0 \<le> index s sep \<Longrightarrow> nat (index s sep) + length sep \<le> length s"
proof (induction s)
  case Nil
  then show ?case by (simp split: if_splits)
next
  case (Cons c cs)
  show ?case
  proof (cases "prefix sep (c # cs)")
    case True
    then show ?thesis using prefix_length_le by fastforce
  next
    case False
    with Cons show ?thesis by (auto simp: Let_def split: if_splits)
  qed
qed

text \<open>
  \<open>bytes.Split\<close> / \<open>strings.Split\<close> with a non-empty separator: cut at each occurrence found
  scanning from the left, the rest after the last one being the final piece. (With an empty
  separator Go cuts after every UTF-8 sequence; the codec never passes one.)
\<close>

function split :: "string \<Rightarrow> string \<Rightarrow> string list" where
  "split s sep =
     (if sep = [] then map (\<lambda>c. [c]) s
      else (let m = index s sep in
            if m < 0 then [s]
            else take (nat m) s # split (drop (nat m + length sep) s) sep))"
  by pat_completeness auto
termination
proof (relation "measure (\<lambda>(s, sep). length s)")
  show "wf (measure (\<lambda>(s, sep). length s))" by simp
next
  fix s sep :: string and m :: int
  assume "sep \<noteq> []" "m = index s sep" "\<not> m < 0"
  then have "nat m + length sep \<le> length s" "0 < length sep"
    using index_bound [of s sep] by auto
  then have "length (drop (nat m + length sep) s) < length s"
    unfolding length_drop by arith
  then show "((drop (nat m + length sep) s, sep), (s, sep)) \<in> measure (\<lambda>(s, sep). length s)"
    by simp
qed

declare split.simps [simp del]

text \<open>
  \<open>strconv.ParseInt(s, 10, 64)\<close>: an optional sign, then \<open>ParseUint\<close> on the rest, which
  reads byte by byte and stops at the first byte that is no digit (a syntax error) or at the
  first step whose value no longer fits 64 unsigned bits (a range error); the value must
  then fit a signed 64-bit integer. Both errors carry the whole text \<open>s0\<close>.
\<close>

definition isDigit :: "char \<Rightarrow> bool" where
  "isDigit c = (CHR ''0'' \<le> c \<and> c \<le> CHR ''9'')"

definition digitVal :: "char \<Rightarrow> nat" where
  "digitVal c = of_char c - 48"

fun parseUint :: "string \<Rightarrow> string \<Rightarrow> nat \<Rightarrow> error + nat" where
  "parseUint s0 [] n = Inr n"
| "parseUint s0 (c # cs) n =
     (if \<not> isDigit c then Inl (ErrSyntax s0)
      else if 2 ^ 64 \<le> 10 * n then Inl (ErrRange s0)
      else if 2 ^ 64 \<le> 10 * n + digitVal c then Inl (ErrRange s0)
      else parseUint s0 cs (10 * n + digitVal c))"

definition parseInt :: "string \<Rightarrow> error + int" where
  "parseInt s =
     (if s = [] then Inl (ErrSyntax s)
      else
        (let neg = (hd s = CHR ''-'');
             ds = (if hd s = CHR ''+'' \<or> hd s = CHR ''-'' then tl s else s)
         in if ds = [] then Inl (ErrSyntax s)
            else
              (case parseUint s ds 0 of
                 Inl err \<Rightarrow> Inl err
               | Inr un \<Rightarrow>
                   if \<not> neg \<and> 2 ^ 63 \<le> un then Inl (ErrRange s)
                   else if neg \<and> 2 ^ 63 < un then Inl (ErrRange s)
                   else Inr (if neg then - int un else int un))))"

text \<open>\<open>strconv.AppendInt(_, n, 10)\<close> and \<open>fmt.Sprint(n)\<close>: the decimal text of an integer.\<close>

definition digitChar :: "nat \<Rightarrow> char" where
  "digitChar n = ''0123456789'' ! n"

fun digits :: "nat \<Rightarrow> string" where
  "digits n = (if n < 10 then [digitChar n] else digits (n div 10) @ [digitChar (n mod 10)])"

declare digits.simps [simp del]

definition formatInt :: "int \<Rightarrow> string" where
  "formatInt i = (if i < 0 then CHR ''-'' # digits (nat (- i)) else digits (nat i))"

subsection \<open>Regular expressions as the codec uses them\<close>

text \<open>
  Template expansion of \<open>regexp.Expand\<close>, which \<open>ReplaceAll\<close> applies to its replacement:
  \<open>$$\<close> is a dollar sign, \<open>$name\<close> and \<open>${name}\<close> (a longest non-empty run of letters,
  digits and underscores) name a submatch, and a \<open>$\<close> that starts none of these stays as
  it is. The codec's patterns have no groups, so only the name \<open>0\<close> (the whole match) has
  a value and every other name expands to nothing. Name characters are the ASCII ones here;
  Go also accepts letters outside ASCII.
\<close>

definition isNameChar :: "char \<Rightarrow> bool" where
  "isNameChar c =
     ((CHR ''a'' \<le> c \<and> c \<le> CHR ''z'') \<or> (CHR ''A'' \<le> c \<and> c \<le> CHR ''Z'')
      \<or> isDigit c \<or> c = CHR ''_'')"

definition extractVar :: "string \<Rightarrow> (string \<times> string) option" where
  "extractVar str =
     (if str = [] then None
      else if hd str = CHR ''{'' then
        (let name = takeWhile isNameChar (tl str); rest = dropWhile isNameChar (tl str)
         in if name = [] then None
            else if rest = [] \<or> hd rest \<noteq> CHR ''}'' then None
            else Some (name, tl rest))
      else
        (let name = takeWhile isNameChar str
         in if name = [] then None else Some (name, dropWhile isNameChar str)))"

lemma extractVar_shorter: "extractVar str = Some (name, rest) \<Longrightarrow> length rest \<le> length str"
proof -
  have d: "length (dropWhile isNameChar xs) \<le> length xs" for xs
    by (rule length_dropWhile_le)
  assume a: "extractVar str = Some (name, rest)"
  show ?thesis
  proof (cases "str = []")
    case True
    with a show ?thesis by (simp add: extractVar_def)
  next
    case False
    then obtain c cs where s: "str = c # cs" by (cases str) auto
    show ?thesis
    proof (cases "c = CHR ''{''")
      case True
      with a s have "rest = tl (dropWhile isNameChar cs)"
        by (auto simp: extractVar_def Let_def split: if_splits)
      then have "length rest \<le> length (dropWhile isNameChar cs)" by simp
      with d [of cs] s show ?thesis by simp
    next
      case False
      with a s have "rest = dropWhile isNameChar (c # cs)"
        by (auto simp: extractVar_def Let_def split: if_splits)
      with d [of "c # cs"] s show ?thesis by simp
    qed
  qed
qed

function expand :: "string \<Rightarrow> string \<Rightarrow> string" where
  "expand [] matched = []"
| "expand (c # template) matched =
     (if c \<noteq> CHR ''$'' then c # expand template matched
      else if template \<noteq> [] \<and> hd template = CHR ''$'' then
        CHR ''$'' # expand (tl template) matched
      else
        (case extractVar template of
           None \<Rightarrow> CHR ''$'' # expand template matched
         | Some (name, rest) \<Rightarrow>
             (if name = ''0'' then matched else []) @ expand rest matched))"
  by pat_completeness auto
termination
proof (relation "measure (\<lambda>(template, matched). length template)")
  show "wf (measure (\<lambda>(template, matched). length template))" by simp
next
  fix c :: char and template matched :: string and x2 :: "string \<times> string" and x y :: string
  assume "extractVar template = Some x2" "(x, y) = x2"
  then have "extractVar template = Some (x, y)" by simp
  then have "length y \<le> length template" by (rule extractVar_shorter)
  then show "((y, matched), (c # template, matched))
              \<in> measure (\<lambda>(template, matched). length template)"
    by simp
qed (auto simp: less_Suc_eq_le)

text \<open>
  Every pattern the codec compiles matches one fixed byte string, so a compiled pattern is
  that string. In a pattern a backslash makes the punctuation character after it literal;
  the characters left unescaped in the codec's patterns have no special meaning.
\<close>

datatype regexp = Literal string

fun unescape :: "string \<Rightarrow> string" where
  "unescape (c # d # rest) = (if c = CHR 0x5C then d # unescape rest else c # unescape (d # rest))"
| "unescape cs = cs"

definition mustCompile :: "string \<Rightarrow> regexp" where
  "mustCompile pattern = Literal (unescape pattern)"

text \<open>
  \<open>ReplaceAll\<close> / \<open>ReplaceAllString\<close> for a non-empty literal pattern: every occurrence found
  scanning from the left is replaced by the expanded replacement.
\<close>

fun replaceLiteral :: "string \<Rightarrow> string \<Rightarrow> string \<Rightarrow> string" where
  "replaceLiteral pat out [] = []"
| "replaceLiteral pat out (c # cs) =
     (if pat \<noteq> [] \<and> prefix pat (c # cs)
      then out @ replaceLiteral pat out (drop (length pat - 1) cs)
      else c # replaceLiteral pat out cs)"

fun replaceAll :: "regexp \<Rightarrow> string \<Rightarrow> string \<Rightarrow> string" where
  "replaceAll (Literal pat) src repl = replaceLiteral pat (expand repl pat) src"

text \<open>
  \<open>escapeRegex\<close> is the character class \<open>[-\/\\^$*+?.()|[\]{}]\<close>; replacing all its matches
  in \<open>s\<close> rewrites each such character by the expanded replacement.
\<close>

definition escapeRegexClass :: string where
  "escapeRegexClass = CHR 0x5C # ''-/^$*+?.()|[]{}''"

definition escapeRegexReplaceAllString :: "string \<Rightarrow> string \<Rightarrow> string" where
  "escapeRegexReplaceAllString s repl =
     concat (map (\<lambda>c. if c \<in> set escapeRegexClass then expand repl [c] else [c]) s)"

subsection \<open>The placeholder alphabet and its matchers (\<open>init\<close>)\<close>

definition WILDCARDS :: string where
  "WILDCARDS =
     ''0123456789abcdefghijklmnopqrstvwxyzABCDEFGHIJKLMNOPQRSTVWXYZ_`[]/^%?@><=-+*:;,.()#$!'{}~''"

definition compressionWildcardRegex :: "regexp list" where
  "compressionWildcardRegex =
     map (\<lambda>c. mustCompile
                (escapeRegexReplaceAllString [CHR ''&'', c] [CHR 0x5C, CHR ''$'', CHR ''&'']))
       WILDCARDS"

subsection \<open>Decompression (\<open>decompressBytes\<close>, \<open>decompress\<close>)\<close>

text \<open>
  The substitution loop \<open>for i := len(compressionDict) - 1; i >= 0; i--\<close>. The first
  argument counts the passes still to run, so the pass being run has index \<open>i\<close>; reading the
  matcher table beyond its end panics.
\<close>

fun expandDict :: "nat \<Rightarrow> string list \<Rightarrow> string \<Rightarrow> string outcome" where
  "expandDict 0 compressionDict text = Returns text"
| "expandDict (Suc i) compressionDict text =
     (if i < length compressionWildcardRegex
      then expandDict i compressionDict
             (replaceAll (compressionWildcardRegex ! i) text (compressionDict ! i))
      else Panics)"

definition decompressBytes :: "string \<Rightarrow> (error + string) outcome" where
  "decompressBytes s =
     (let parts = split s ''||''
      in if length parts < 2 then Returns (Inl InvalidDeck)
         else
           (let compressionDict = split (parts ! 0) ''|''; text = parts ! 1
            in map_outcome Inr (expandDict (length compressionDict) compressionDict text)))"

definition decompress :: "string \<Rightarrow> (error + string) outcome" where
  "decompress s =
     (let parts = split s ''||''
      in if length parts < 2 then Returns (Inl InvalidDeck)
         else
           (let compressionDict = split (parts ! 0) ''|''; text = parts ! 1
            in map_outcome Inr (expandDict (length compressionDict) compressionDict text)))"

subsection \<open>Reading delimited fields (\<open>readDelimitedBytes\<close>, \<open>parseCardBytes\<close>)\<close>

text \<open>
  The callback of \<open>readDelimitedBytes\<close> is a closure over the caller's variables; here it
  takes the variables it updates as a state and returns them, or the error it stops with.
  The loop advances by the delimiter's length, so it is a partial function: \<open>None\<close> is a
  run that never returns.
\<close>

partial_function (option) readFrom ::
  "string \<Rightarrow> string \<Rightarrow> (string \<Rightarrow> 'st \<Rightarrow> error + 'st) \<Rightarrow> nat \<Rightarrow> 'st \<Rightarrow> (error + 'st) option"
where
  "readFrom s delim cb currIndex st =
     (if currIndex < length s then
        (let found = int currIndex + index (drop currIndex s) delim;
             nextIndex = (if found < int currIndex then length s else nat found)
         in case cb (take (nextIndex - currIndex) (drop currIndex s)) st of
              Inl err \<Rightarrow> Some (Inl err)
            | Inr st' \<Rightarrow> readFrom s delim cb (nextIndex + length delim) st')
      else Some (Inr st))"

declare readFrom.simps [code]

definition readDelimitedBytes ::
  "string \<Rightarrow> string \<Rightarrow> (string \<Rightarrow> 'st \<Rightarrow> error + 'st) \<Rightarrow> 'st \<Rightarrow> (error + 'st) option"
where
  "readDelimitedBytes s delim cb st =
     (if length s = 0 \<or> (length s = 1 \<and> s ! 0 = CHR ''-'') then Some (Inr st)
      else readFrom s delim cb 0 st)"

definition parseCardBytes :: "string \<Rightarrow> string" where
  "parseCardBytes cardSection =
     (let sectionEnd = index cardSection '';''
      in if sectionEnd = - 1 then cardSection else take (nat sectionEnd) cardSection)"

subsection \<open>The byte pipeline (\<open>deck.parse\<close>, \<open>deck.Bytes\<close>)\<close>

text \<open>
  \<open>parseOnce\<close> is the \<open>sync.Once\<close>: \<open>True\<close> once \<open>Do\<close> has run its function, also
  when that function panicked. The capacity computed from \<open>longestCard\<close> and the debugging
  \<open>Printf\<close> do not affect any returned value and are left out. Counts are Go \<open>int\<close>s that
  only ever grow by one from zero, so they are unbounded integers here.
\<close>

record deck =
  buf :: string
  parseOnce :: bool

definition readCard :: "string \<Rightarrow> string list \<Rightarrow> error + string list" where
  "readCard val cards = Inr (cards @ [val])"

definition readIndex ::
  "string list \<Rightarrow> string \<Rightarrow> (string \<rightharpoonup> int) \<times> string list
     \<Rightarrow> error + (string \<rightharpoonup> int) \<times> string list"
where
  "readIndex cards val st =
     (case parseInt val of
        Inl err \<Rightarrow> Inl err
      | Inr cardIdxVal \<Rightarrow>
          if cardIdxVal < 0 \<or> int (length cards) \<le> cardIdxVal then Inl CardIndexOutOfBounds
          else
            (let cardStr = parseCardBytes (cards ! nat cardIdxVal)
             in if length cardStr = 0 then Inr st
                else
                  (case st of (cardIdxCountMap, uniqueCardList) \<Rightarrow>
                     (case cardIdxCountMap cardStr of
                        None \<Rightarrow> Inr (cardIdxCountMap(cardStr \<mapsto> 0 + 1), uniqueCardList @ [cardStr])
                      | Some ct \<Rightarrow> Inr (cardIdxCountMap(cardStr \<mapsto> ct + 1), uniqueCardList)))))"

text \<open>
  \<open>slices.SortFunc\<close> with a \<open>less\<close> function, as an insertion sort. The codec sorts lists
  without repetitions by a strict total order, for which every sorting algorithm returns the
  same list.
\<close>

fun insertBy :: "('a \<Rightarrow> 'a \<Rightarrow> bool) \<Rightarrow> 'a \<Rightarrow> 'a list \<Rightarrow> 'a list" where
  "insertBy lessFn x [] = [x]"
| "insertBy lessFn x (y # ys) = (if lessFn x y then x # y # ys else y # insertBy lessFn x ys)"

definition sortFunc :: "('a \<Rightarrow> 'a \<Rightarrow> bool) \<Rightarrow> 'a list \<Rightarrow> 'a list" where
  "sortFunc lessFn xs = foldr (insertBy lessFn) xs []"

definition cardLess :: "string \<Rightarrow> string \<Rightarrow> bool" where
  "cardLess i j =
     (if i = ''Ascender's Bane'' then False
      else if j = ''Ascender's Bane'' then True
      else i < j)"

text \<open>The formatting loop over the sorted names; it returns the buffer it has written.\<close>

fun writeCards :: "string list \<Rightarrow> (string \<rightharpoonup> int) \<Rightarrow> string \<Rightarrow> string \<times> error option" where
  "writeCards [] cardIdxCountMap b = (b, None)"
| "writeCards (cardStr # rest) cardIdxCountMap b =
     (case cardIdxCountMap cardStr of
        None \<Rightarrow> (b @ cardStr, Some CardNotFound)
      | Some cardCount \<Rightarrow>
          if 0 < cardCount
          then writeCards rest cardIdxCountMap
                 (b @ cardStr @ '' x'' @ formatInt cardCount @ [CHR 0x0A])
          else writeCards rest cardIdxCountMap (b @ cardStr))"

definition parse :: "deck \<Rightarrow> (deck \<times> error option) outcome" where
  "parse d =
     (case decompressBytes (buf d) of
        Hangs \<Rightarrow> Hangs
      | Panics \<Rightarrow> Panics
      | Returns (Inl err) \<Rightarrow> Returns (d, Some err)
      | Returns (Inr decompressed) \<Rightarrow>
          (let parts = split decompressed '';;;''
           in if length parts < 2 then Panics
              else
                (case readDelimitedBytes (parts ! 1) '';;'' readCard [] of
                   None \<Rightarrow> Hangs
                 | Some (Inl err) \<Rightarrow> Returns (d, Some err)
                 | Some (Inr cards) \<Rightarrow>
                     (case readDelimitedBytes (parts ! 0) '','' (readIndex cards)
                             (Map.empty, []) of
                        None \<Rightarrow> Hangs
                      | Some (Inl err) \<Rightarrow> Returns (d, Some err)
                      | Some (Inr (cardIdxCountMap, uniqueCardList)) \<Rightarrow>
                          (case writeCards (sortFunc cardLess uniqueCardList)
                                  cardIdxCountMap [] of
                             (b, err) \<Rightarrow> Returns (d\<lparr>buf := b\<rparr>, err))))))"

definition Bytes :: "deck \<Rightarrow> deck \<times> (string \<times> error option) outcome" where
  "Bytes d =
     (if parseOnce d then (d, Returns (buf d, None))
      else
        (case parse d of
           Hangs \<Rightarrow> (d, Hangs)
         | Panics \<Rightarrow> (d\<lparr>parseOnce := True\<rparr>, Panics)
         | Returns (d', err) \<Rightarrow> (d'\<lparr>parseOnce := True\<rparr>, Returns (buf d', err))))"

definition newDeck :: "string \<Rightarrow> deck" where
  "newDeck s = \<lparr>buf = s, parseOnce = False\<rparr>"

subsection \<open>The string pipeline (\<open>decompressDeck\<close>) and the reference formatter\<close>

text \<open>
  The loop of \<open>parseCommaDelimitedIntegerArray\<close> with its index \<open>currIndex\<close> and its result
  slice. Go's \<open>int\<close> is taken to be 64 bits wide, so \<open>int(resultVal)\<close> is the parsed value.
\<close>

function parseIntsFrom :: "string \<Rightarrow> nat \<Rightarrow> int list \<Rightarrow> error + int list" where
  "parseIntsFrom s currIndex result =
     (if currIndex < length s then
        (let found = int currIndex + index (drop currIndex s) '','';
             nextIndex = (if found < int currIndex then length s else nat found)
         in case parseInt (take (nextIndex - currIndex) (drop currIndex s)) of
              Inl err \<Rightarrow> Inl err
            | Inr resultVal \<Rightarrow> parseIntsFrom s (nextIndex + 1) (result @ [resultVal]))
      else Inr result)"
  by pat_completeness auto
termination
  by (relation "measure (\<lambda>(s, currIndex, result). length s - currIndex)")
    (auto split: if_splits)

declare parseIntsFrom.simps [simp del]

definition parseCommaDelimitedIntegerArray :: "string \<Rightarrow> error + int list" where
  "parseCommaDelimitedIntegerArray s =
     (if s = ''-'' then Inr [] else parseIntsFrom s 0 [])"

definition splitDoubleSemicolonArray :: "string \<Rightarrow> string list" where
  "splitDoubleSemicolonArray s = (if s = ''-'' then [] else split s '';;'')"

definition parseCard :: "string \<Rightarrow> string" where
  "parseCard cardSection =
     (let sectionEnd = index cardSection '';''
      in if sectionEnd = - 1 then cardSection else take (nat sectionEnd) cardSection)"

definition parseCards :: "string list \<Rightarrow> string list" where
  "parseCards cardSections = map parseCard cardSections"

fun countNames :: "string list \<Rightarrow> int list \<Rightarrow> (string \<rightharpoonup> int) \<Rightarrow> error + (string \<rightharpoonup> int)" where
  "countNames cards [] deckDict = Inr deckDict"
| "countNames cards (idx # d) deckDict =
     (if idx < 0 \<or> int (length cards) \<le> idx then Inl CardIndexOutOfBounds
      else
        (let name = cards ! nat idx
         in countNames cards d
              (deckDict(name \<mapsto> (case deckDict name of None \<Rightarrow> 0 | Some c \<Rightarrow> c) + 1))))"

definition decompressDeck :: "string \<Rightarrow> (error + (string \<rightharpoonup> int)) outcome" where
  "decompressDeck s =
     (case decompress s of
        Hangs \<Rightarrow> Hangs
      | Panics \<Rightarrow> Panics
      | Returns (Inl err) \<Rightarrow> Returns (Inl err)
      | Returns (Inr text) \<Rightarrow>
          (let parts = split text '';;;''
           in case parseCommaDelimitedIntegerArray (parts ! 0) of
                Inl err \<Rightarrow> Returns (Inl err)
              | Inr d \<Rightarrow>
                  if length parts < 2 then Panics
                  else
                    (let cards = parseCards (splitDoubleSemicolonArray (parts ! 1))
                     in Returns (countNames cards d Map.empty))))"

text \<open>
  \<open>getStableOutput\<close> of deck_test.go. Go ranges over a map in an order of its own choosing;
  \<open>keys\<close> is that order.
\<close>

definition getStableOutput :: "string list \<Rightarrow> (string \<rightharpoonup> int) \<Rightarrow> string" where
  "getStableOutput keys countMap =
     concat (map (\<lambda>k. k @ '' x''
                        @ formatInt (case countMap k of None \<Rightarrow> 0 | Some c \<Rightarrow> c)
                        @ [CHR 0x0A])
               (sortFunc cardLess keys))"

subsection \<open>Notions used to state the properties\<close>

text \<open>
  \<open>foldFields\<close> runs a callback over a list of fields, stopping at the first error;
  \<open>fields\<close> is the list of pieces \<open>readDelimitedBytes\<close> visits: those of \<open>split\<close>, without
  the last one when it is empty. \<open>callBytes n\<close> is the deck after \<open>n\<close> calls of \<open>Bytes\<close>.
\<close>

fun foldFields :: "(string \<Rightarrow> 'st \<Rightarrow> error + 'st) \<Rightarrow> string list \<Rightarrow> 'st \<Rightarrow> error + 'st" where
  "foldFields cb [] st = Inr st"
| "foldFields cb (v # vs) st = (case cb v st of Inl err \<Rightarrow> Inl err | Inr st' \<Rightarrow> foldFields cb vs st')"

definition fields :: "string \<Rightarrow> string \<Rightarrow> string list" where
  "fields s delim = (let ps = split s delim in if last ps = [] then butlast ps else ps)"


text \<open>
  \<open>readInt\<close> is the body of the loop of \<open>parseCommaDelimitedIntegerArray\<close>, as a callback.
\<close>

definition readInt :: "string \<Rightarrow> int list \<Rightarrow> error + int list" where
  "readInt val result = (case parseInt val of Inl err \<Rightarrow> Inl err | Inr resultVal \<Rightarrow> Inr (result @ [resultVal]))"

text \<open>
  Placeholders, as the format means them. A text is a list of tokens: plain text without
  ampersands, a placeholder \<open>Ref k\<close> for the \<open>k\<close>-th symbol, or an ampersand followed by a
  character that is no symbol. A placeholder is well formed when \<open>escapeRegex\<close> leaves its
  symbol alone. \<open>full tdict i\<close> is dictionary word \<open>i\<close> with every placeholder of a lower
  index replaced by that word, resolved in turn, and every other token left as it is; \<open>resolve n\<close>
  does that to one token below the dictionary index \<open>n\<close>.
\<close>

datatype token = Txt string | Ref nat | Amp char

fun render :: "token \<Rightarrow> string" where
  "render (Txt x) = x"
| "render (Ref k) = [CHR ''&'', WILDCARDS ! k]"
| "render (Amp c) = [CHR ''&'', c]"

definition renderAll :: "token list \<Rightarrow> string" where
  "renderAll toks = concat (map render toks)"

fun wellFormed :: "token \<Rightarrow> bool" where
  "wellFormed (Txt x) = (CHR ''&'' \<notin> set x)"
| "wellFormed (Ref k) = (k < length WILDCARDS \<and> WILDCARDS ! k \<notin> set escapeRegexClass)"
| "wellFormed (Amp c) = (c \<notin> set WILDCARDS \<and> c \<noteq> CHR ''&'')"

function full :: "token list list \<Rightarrow> nat \<Rightarrow> token list" where
  "full tdict i =
     concat (map (\<lambda>t. case t of Ref j \<Rightarrow> if j < i then full tdict j else [t] | _ \<Rightarrow> [t])
               (tdict ! i))"
  by pat_completeness auto
termination
  by (relation "measure (\<lambda>(tdict, i). i)") auto

declare full.simps [simp del]

definition resolve :: "nat \<Rightarrow> token list list \<Rightarrow> token \<Rightarrow> token list" where
  "resolve n tdict t = (case t of Ref j \<Rightarrow> if j < n then full tdict j else [t] | _ \<Rightarrow> [t])"

text \<open>
  \<open>substT\<close> is one pass of the substitution loop on tokens, and \<open>passes n\<close> the passes
  \<open>n - 1\<close> down to 0.
\<close>

definition substT :: "nat \<Rightarrow> token list \<Rightarrow> token list \<Rightarrow> token list" where
  "substT k w toks = concat (map (\<lambda>t. if t = Ref k then w else [t]) toks)"

fun passes :: "nat \<Rightarrow> token list list \<Rightarrow> token list \<Rightarrow> token list" where
  "passes 0 tdict toks = toks"
| "passes (Suc i) tdict toks = passes i tdict (substT i (tdict ! i) toks)"

section \<open>Properties\<close>

subsection \<open>Splitting and reading fields\<close>

lemma split_empty: "split [] ''||'' = [[]]"
  by (simp add: split.simps)

lemma parse_empty: "parse (newDeck []) = Returns (newDeck [], Some InvalidDeck)"
  by (simp add: parse_def newDeck_def decompressBytes_def split_empty)

lemma split_not_Nil: "sep \<noteq> [] \<Longrightarrow> split s sep \<noteq> []"
  by (subst split.simps) (simp add: Let_def)

lemma split_absent: "sep \<noteq> [] \<Longrightarrow> index s sep < 0 \<Longrightarrow> split s sep = [s]"
  by (subst split.simps) simp

lemma split_found:
  "sep \<noteq> [] \<Longrightarrow> 0 \<le> index s sep \<Longrightarrow>
   split s sep = take (nat (index s sep)) s # split (drop (nat (index s sep) + length sep) s) sep"
  by (subst split.simps) (simp add: Let_def)

lemma fields_absent: "sep \<noteq> [] \<Longrightarrow> index s sep < 0 \<Longrightarrow> s \<noteq> [] \<Longrightarrow> fields s sep = [s]"
  by (simp add: fields_def split_absent)

lemma fields_Nil: "sep \<noteq> [] \<Longrightarrow> fields [] sep = []"
  by (simp add: fields_def split_absent)

lemma fields_found:
  "sep \<noteq> [] \<Longrightarrow> 0 \<le> index s sep \<Longrightarrow>
   fields s sep = take (nat (index s sep)) s # fields (drop (nat (index s sep) + length sep) s) sep"
  using split_not_Nil [of sep "drop (nat (index s sep) + length sep) s"]
  by (simp add: fields_def split_found Let_def)

lemma readFrom_past_end: "length s \<le> i \<Longrightarrow> readFrom s delim cb i st = Some (Inr st)"
  by (subst readFrom.simps) simp

lemma readFrom_absent:
  assumes "i < length s" "index (drop i s) delim < 0"
  shows "readFrom s delim cb i st
          = (case cb (drop i s) st of Inl err \<Rightarrow> Some (Inl err) | Inr st' \<Rightarrow> Some (Inr st'))"
proof -
  have "readFrom s delim cb (length s + length delim) st' = Some (Inr st')" for st'
    by (rule readFrom_past_end) simp
  with assms show ?thesis
    by (subst readFrom.simps) (simp add: Let_def split: sum.splits)
qed

lemma readFrom_found:
  assumes "i < length s" "0 \<le> index (drop i s) delim"
  shows "readFrom s delim cb i st
          = (case cb (take (nat (index (drop i s) delim)) (drop i s)) st of
               Inl err \<Rightarrow> Some (Inl err)
             | Inr st' \<Rightarrow> readFrom s delim cb (i + nat (index (drop i s) delim) + length delim) st')"
proof -
  from assms(2) have f: "int i + index (drop i s) delim = int (i + nat (index (drop i s) delim))"
    by simp
  show ?thesis
    by (subst readFrom.simps) (simp only: f assms(1) if_True Let_def of_nat_less_iff nat_int, simp)
qed

lemma readFrom_fields:
  "delim \<noteq> [] \<Longrightarrow> readFrom s delim cb i st = Some (foldFields cb (fields (drop i s) delim) st)"
proof (induction "length s - i" arbitrary: i st rule: less_induct)
  case less
  show ?case
  proof (cases "i < length s")
    case False
    then show ?thesis using less.prems by (simp add: readFrom_past_end fields_Nil)
  next
    case True
    let ?t = "drop i s"
    from True have t: "?t \<noteq> []" by simp
    show ?thesis
    proof (cases "index ?t delim < 0")
      case True
      with \<open>i < length s\<close> less.prems t show ?thesis
        by (simp add: readFrom_absent fields_absent split: sum.splits)
    next
      case False
      let ?m = "nat (index ?t delim)"
      from False have m: "0 \<le> index ?t delim" by simp
      from less.prems have "0 < length delim" by simp
      with \<open>i < length s\<close> have "length s - (i + ?m + length delim) < length s - i" by arith
      from less.hyps [OF this less.prems]
      have ih: "readFrom s delim cb (i + ?m + length delim) st'
                 = Some (foldFields cb (fields (drop (i + ?m + length delim) s) delim) st')" for st'
        .
      have dd: "drop (?m + length delim) ?t = drop (i + ?m + length delim) s"
        by (simp only: drop_drop) (simp add: ac_simps)
      have ff: "fields ?t delim = take ?m ?t # fields (drop (i + ?m + length delim) s) delim"
        using fields_found [OF less.prems m] by (simp only: dd)
      show ?thesis
        by (simp only: readFrom_found [OF \<open>i < length s\<close> m] ih ff foldFields.simps)
          (simp split: sum.splits)
    qed
  qed
qed

lemma readDelimitedBytes_fields:
  "delim \<noteq> [] \<Longrightarrow>
   readDelimitedBytes s delim cb st
     = Some (foldFields cb (if s = ''-'' then [] else fields s delim) st)"
proof -
  assume d: "delim \<noteq> []"
  have e: "(length s = 1 \<and> s ! 0 = CHR ''-'') \<longleftrightarrow> s = ''-''"
    by (cases s) auto
  show ?thesis
  proof (cases "s = [] \<or> s = ''-''")
    case True
    with d show ?thesis by (auto simp: readDelimitedBytes_def fields_Nil)
  next
    case False
    with e have "\<not> (length s = 0 \<or> (length s = 1 \<and> s ! 0 = CHR ''-''))" by simp
    then have "readDelimitedBytes s delim cb st = readFrom s delim cb 0 st"
      by (simp only: readDelimitedBytes_def if_False)
    with d False show ?thesis by (simp add: readFrom_fields)
  qed
qed

subsection \<open>The matcher table and the substitution loop\<close>

lemma length_WILDCARDS: "length WILDCARDS = 88"
  by (simp add: WILDCARDS_def)

lemma length_compressionWildcardRegex: "length compressionWildcardRegex = 88"
  by (simp add: compressionWildcardRegex_def length_WILDCARDS)

lemma expand_escape: "expand [CHR 0x5C, CHR ''$'', CHR ''&''] [c] = [CHR 0x5C, CHR ''$'', CHR ''&'']"
  by (simp add: extractVar_def isNameChar_def isDigit_def)

lemma compressionWildcardRegex_nth:
  "i < 88 \<Longrightarrow>
   compressionWildcardRegex ! i
     = Literal (if WILDCARDS ! i \<in> set escapeRegexClass then ''&$&''
                else [CHR ''&'', WILDCARDS ! i])"
proof -
  assume i: "i < 88"
  let ?c = "WILDCARDS ! i"
  let ?t = "[CHR 0x5C, CHR ''$'', CHR ''&'']"
  have amp: "CHR ''&'' \<notin> set escapeRegexClass" by (simp add: escapeRegexClass_def)
  have n: "compressionWildcardRegex ! i = mustCompile (escapeRegexReplaceAllString [CHR ''&'', ?c] ?t)"
    using i by (simp add: compressionWildcardRegex_def length_WILDCARDS)
  show ?thesis
  proof (cases "?c \<in> set escapeRegexClass")
    case True
    then have "escapeRegexReplaceAllString [CHR ''&'', ?c] ?t = CHR ''&'' # ?t"
      using amp by (simp add: escapeRegexReplaceAllString_def expand_escape del: expand.simps)
    with True n show ?thesis by (simp add: mustCompile_def)
  next
    case False
    then have "escapeRegexReplaceAllString [CHR ''&'', ?c] ?t = [CHR ''&'', ?c]"
      using amp by (simp add: escapeRegexReplaceAllString_def)
    with False n show ?thesis by (simp add: mustCompile_def)
  qed
qed

lemma regex0: "compressionWildcardRegex ! 0 = Literal ''&0''"
  by (simp add: compressionWildcardRegex_nth) (simp add: WILDCARDS_def escapeRegexClass_def)

lemma regex1: "compressionWildcardRegex ! Suc 0 = Literal ''&1''"
  by (simp add: compressionWildcardRegex_nth) (simp add: WILDCARDS_def escapeRegexClass_def)

lemma expandDict_not_Hangs: "expandDict n dict t \<noteq> Hangs"
  by (induction n arbitrary: t) auto

lemma expandDict_fits:
  "n \<le> length compressionWildcardRegex \<Longrightarrow> \<exists>r. expandDict n dict t = Returns r"
  by (induction n arbitrary: t) auto

lemma expandDict_overflow:
  "length compressionWildcardRegex < n \<Longrightarrow> expandDict n dict t = Panics"
  by (cases n) auto

lemma map_outcome_Hangs: "map_outcome f x = Hangs \<longleftrightarrow> x = Hangs"
  by (cases x) auto

lemma map_outcome_Panics: "map_outcome f x = Panics \<longleftrightarrow> x = Panics"
  by (cases x) auto

lemma decompressBytes_not_Hangs: "decompressBytes s \<noteq> Hangs"
  by (simp add: decompressBytes_def Let_def map_outcome_Hangs expandDict_not_Hangs)

lemma parse_not_Hangs: "parse d \<noteq> Hangs"
  using decompressBytes_not_Hangs [of "buf d"]
  by (auto simp: parse_def Let_def readDelimitedBytes_fields split: outcome.splits sum.splits prod.splits)

subsection \<open>Evaluation on concrete documents\<close>

lemma split_small:
  "split ''card|junk||0,1,1,0,2,0;;;&01;&1;x;;&02;&1;y;;&03;&1;z'' ''||''
     = [''card|junk'', ''0,1,1,0,2,0;;;&01;&1;x;;&02;&1;y;;&03;&1;z'']"
  by (simp add: split.simps)

lemma split_small_dict: "split ''card|junk'' ''|'' = [''card'', ''junk'']"
  by (simp add: split.simps)

lemma decompress_small:
  "decompress ''card|junk||0,1,1,0,2,0;;;&01;&1;x;;&02;&1;y;;&03;&1;z''
     = Returns (Inr ''0,1,1,0,2,0;;;card1;junk;x;;card2;junk;y;;card3;junk;z'')"
  by (simp add: decompress_def split_small split_small_dict length_compressionWildcardRegex
      regex0 regex1)

lemma decompressBytes_small:
  "decompressBytes ''card|junk||0,1,1,0,2,0;;;&01;&1;x;;&02;&1;y;;&03;&1;z''
     = Returns (Inr ''0,1,1,0,2,0;;;card1;junk;x;;card2;junk;y;;card3;junk;z'')"
  by (simp add: decompressBytes_def split_small split_small_dict length_compressionWildcardRegex
      regex0 regex1)

lemma split_small_text:
  "split ''0,1,1,0,2,0;;;card1;junk;x;;card2;junk;y;;card3;junk;z'' '';;;''
     = [''0,1,1,0,2,0'', ''card1;junk;x;;card2;junk;y;;card3;junk;z'']"
  by (simp add: split.simps)

lemma split_small_table:
  "split ''card1;junk;x;;card2;junk;y;;card3;junk;z'' '';;''
     = [''card1;junk;x'', ''card2;junk;y'', ''card3;junk;z'']"
  by (simp add: split.simps)

lemma split_small_indices:
  "split ''0,1,1,0,2,0'' '','' = [''0'', ''1'', ''1'', ''0'', ''2'', ''0'']"
  by (simp add: split.simps)

lemma parseInt_small:
  "parseInt ''0'' = Inr 0" "parseInt ''1'' = Inr 1" "parseInt ''2'' = Inr 2"
  by (simp_all add: parseInt_def isDigit_def digitVal_def)

lemma parse_small:
  "parse (newDeck ''card|junk||0,1,1,0,2,0;;;&01;&1;x;;&02;&1;y;;&03;&1;z'')
     = Returns (\<lparr>buf = ''card1 x3'' @ [CHR 0x0A] @ ''card2 x2'' @ [CHR 0x0A] @ ''card3 x1'' @ [CHR 0x0A],
                 parseOnce = False\<rparr>, None)"
  by (simp add: parse_def newDeck_def decompressBytes_small split_small_text
      readDelimitedBytes_fields fields_def split_small_table split_small_indices
      readCard_def readIndex_def parseInt_small parseCardBytes_def
      sortFunc_def cardLess_def formatInt_def digits.simps digitChar_def Let_def)

lemma parseInts_small: "parseCommaDelimitedIntegerArray ''0,1,1,0,2,0'' = Inr [0, 1, 1, 0, 2, 0]"
  by (simp add: parseCommaDelimitedIntegerArray_def parseIntsFrom.simps parseInt_small)

lemma decompressDeck_small:
  "decompressDeck ''card|junk||0,1,1,0,2,0;;;&01;&1;x;;&02;&1;y;;&03;&1;z''
     = Returns (Inr [''card1'' \<mapsto> 3, ''card2'' \<mapsto> 2, ''card3'' \<mapsto> 1])"
  by (simp add: decompressDeck_def decompress_small split_small_text parseInts_small
      splitDoubleSemicolonArray_def split_small_table parseCards_def parseCard_def)
    (auto simp: fun_eq_iff)

lemma Bytes_small:
  "Bytes (newDeck ''card|junk||0,1,1,0,2,0;;;&01;&1;x;;&02;&1;y;;&03;&1;z'')
     = (\<lparr>buf = ''card1 x3'' @ [CHR 0x0A] @ ''card2 x2'' @ [CHR 0x0A] @ ''card3 x1'' @ [CHR 0x0A],
          parseOnce = True\<rparr>,
        Returns (''card1 x3'' @ [CHR 0x0A] @ ''card2 x2'' @ [CHR 0x0A] @ ''card3 x1'' @ [CHR 0x0A], None))"
  by (simp add: Bytes_def parse_small) (simp add: newDeck_def)

lemma split_two: "split ''||'' ''||'' = [[], []]"
  by (simp add: split.simps)

lemma parse_no_separator: "parse (newDeck ''||'') = Panics"
  by (simp add: parse_def newDeck_def decompressBytes_def split_two split_empty split.simps
      length_compressionWildcardRegex regex0)

lemma length_words: "length (concat (replicate n ''a|'')) = 2 * n"
  by (induction n) auto

lemma words_no_bar: "\<not> prefix ''|'' (concat (replicate n ''a|'') @ CHR ''a'' # x)"
  by (cases n) auto

lemma index_sep_words: "index (concat (replicate n ''a|'') @ ''a||'') ''||'' = int (Suc (2 * n))"
  by (induction n) (simp_all add: Let_def words_no_bar)

lemma split_sep_words:
  "split (concat (replicate n ''a|'') @ ''a||'') ''||'' = [concat (replicate n ''a|'') @ ''a'', []]"
proof -
  let ?s = "concat (replicate n ''a|'') @ ''a||''"
  have i: "nat (index ?s ''||'') = Suc (2 * n)" by (simp only: index_sep_words nat_int)
  have t: "take (Suc (2 * n)) ?s = concat (replicate n ''a|'') @ ''a''"
    by (simp add: length_words)
  have d: "drop (Suc (2 * n) + length ''||'') ?s = []"
    by (simp add: length_words)
  have "split ?s ''||'' = take (nat (index ?s ''||'')) ?s
          # split (drop (nat (index ?s ''||'') + length ''||'') ?s) ''||''"
    by (rule split_found) (simp_all add: index_sep_words)
  then show ?thesis by (simp only: i t d split_empty)
qed

lemma split_words: "split (concat (replicate n ''a|'') @ ''a'') ''|'' = replicate (Suc n) ''a''"
proof (induction n)
  case 0
  show ?case by (simp add: split.simps)
next
  case (Suc n)
  then show ?case by (subst split.simps) (simp add: Let_def words_no_bar)
qed

lemma decompress_empty_table:
  "decompress ''||0;;;'' = Returns (Inr ''0;;;'')"
  "decompressBytes ''||0;;;'' = Returns (Inr ''0;;;'')"
  "decompress ''||0;;;-'' = Returns (Inr ''0;;;-'')"
  "decompressBytes ''||0;;;-'' = Returns (Inr ''0;;;-'')"
  by (simp_all add: decompress_def decompressBytes_def split.simps
      length_compressionWildcardRegex regex0)

lemma parseInt_0: "parseInt ''0'' = Inr 0"
  by (rule parseInt_small)

lemma empty_name_example:
  "snd (Bytes (newDeck ''||0;;;;x'')) = Returns ([], None)"
  "decompressDeck ''||0;;;;x'' = Returns (Inr [[] \<mapsto> 1])"
  "getStableOutput [[]] [[] \<mapsto> 1] = '' x1'' @ [CHR 0x0A]"
proof -
  have d: "decompress ''||0;;;;x'' = Returns (Inr ''0;;;;x'')"
    "decompressBytes ''||0;;;;x'' = Returns (Inr ''0;;;;x'')"
    by (simp_all add: decompress_def decompressBytes_def split.simps
        length_compressionWildcardRegex regex0)
  have s: "split ''0;;;;x'' '';;;'' = [''0'', '';x'']" by (simp add: split.simps)
  have t: "split '';x'' '';;'' = ['';x'']" by (simp add: split.simps)
  have f: "fields ''0'' '','' = [''0'']" "fields '';x'' '';;'' = ['';x'']"
    by (simp_all add: fields_def split.simps)
  have i: "parseCommaDelimitedIntegerArray ''0'' = Inr [0]"
    by (simp add: parseCommaDelimitedIntegerArray_def parseIntsFrom.simps parseInt_0)
  have p: "parse (newDeck ''||0;;;;x'') = Returns (\<lparr>buf = [], parseOnce = False\<rparr>, None)"
    by (simp add: parse_def newDeck_def d s readDelimitedBytes_fields f readCard_def
        readIndex_def parseInt_0 parseCardBytes_def sortFunc_def)
  show "snd (Bytes (newDeck ''||0;;;;x'')) = Returns ([], None)"
    by (simp add: Bytes_def p) (simp add: newDeck_def)
  show "decompressDeck ''||0;;;;x'' = Returns (Inr [[] \<mapsto> 1])"
    by (simp add: decompressDeck_def d s i splitDoubleSemicolonArray_def t
        parseCards_def parseCard_def)
  show "getStableOutput [[]] [[] \<mapsto> 1] = '' x1'' @ [CHR 0x0A]"
    by (simp add: getStableOutput_def sortFunc_def formatInt_def digits.simps digitChar_def)
qed

lemma empty_table_examples:
  "decompressDeck ''||0;;;'' = Returns (Inr [[] \<mapsto> 1])
   \<and> snd (Bytes (newDeck ''||0;;;'')) = Returns (''||0;;;'', Some CardIndexOutOfBounds)
   \<and> decompressDeck ''||0;;;-'' = Returns (Inl CardIndexOutOfBounds)
   \<and> snd (Bytes (newDeck ''||0;;;-'')) = Returns (''||0;;;-'', Some CardIndexOutOfBounds)"
proof -
  have s: "split ''0;;;'' '';;;'' = [''0'', []]" "split ''0;;;-'' '';;;'' = [''0'', ''-'']"
    by (simp_all add: split.simps)
  have i: "parseCommaDelimitedIntegerArray ''0'' = Inr [0]"
    by (simp add: parseCommaDelimitedIntegerArray_def parseIntsFrom.simps parseInt_0)
  have f: "fields ''0'' '','' = [''0'']" by (simp add: fields_def split.simps)
  have a: "decompressDeck ''||0;;;'' = Returns (Inr [[] \<mapsto> 1])"
    by (simp add: decompressDeck_def decompress_empty_table s i splitDoubleSemicolonArray_def
        split.simps parseCards_def parseCard_def)
  have b: "parse (newDeck ''||0;;;'') = Returns (newDeck ''||0;;;'', Some CardIndexOutOfBounds)"
    by (simp add: parse_def newDeck_def decompress_empty_table s readDelimitedBytes_fields
        fields_Nil f readIndex_def parseInt_0)
  have c: "decompressDeck ''||0;;;-'' = Returns (Inl CardIndexOutOfBounds)"
    by (simp add: decompressDeck_def decompress_empty_table s i splitDoubleSemicolonArray_def
        parseCards_def)
  have d: "parse (newDeck ''||0;;;-'') = Returns (newDeck ''||0;;;-'', Some CardIndexOutOfBounds)"
    by (simp add: parse_def newDeck_def decompress_empty_table s readDelimitedBytes_fields
        f readIndex_def parseInt_0)
  have b': "snd (Bytes (newDeck ''||0;;;'')) = Returns (''||0;;;'', Some CardIndexOutOfBounds)"
    by (simp add: Bytes_def b) (simp add: newDeck_def)
  have d': "snd (Bytes (newDeck ''||0;;;-'')) = Returns (''||0;;;-'', Some CardIndexOutOfBounds)"
    by (simp add: Bytes_def d) (simp add: newDeck_def)
  from a b' c d' show ?thesis by blast
qed

subsection \<open>Lemmas on the substitution passes\<close>

lemma distinct_WILDCARDS: "distinct WILDCARDS"
  by (simp add: WILDCARDS_def)

lemma amp_not_wildcard: "CHR ''&'' \<notin> set WILDCARDS"
  by (simp add: WILDCARDS_def)

lemma wildcard_not_amp: "i < 88 \<Longrightarrow> WILDCARDS ! i \<noteq> CHR ''&''"
  by (metis amp_not_wildcard nth_mem length_WILDCARDS)

lemma wildcards_differ: "i < 88 \<Longrightarrow> k < 88 \<Longrightarrow> k \<noteq> i \<Longrightarrow> WILDCARDS ! k \<noteq> WILDCARDS ! i"
  using distinct_WILDCARDS by (simp add: nth_eq_iff_index_eq length_WILDCARDS)

lemma expand_plain: "CHR ''$'' \<notin> set w \<Longrightarrow> expand w m = w"
  by (induction w) auto

lemma replaceLiteral_skip:
  "CHR ''&'' \<notin> set a \<Longrightarrow>
   replaceLiteral (CHR ''&'' # p) out (a @ rest) = a @ replaceLiteral (CHR ''&'' # p) out rest"
  by (induction a) auto

lemma replaceLiteral_ampfree:
  "CHR ''&'' \<notin> set t \<Longrightarrow> replaceLiteral (CHR ''&'' # p) out t = t"
  using replaceLiteral_skip [of t p out "[]"] by simp

lemma replaceLiteral_hit:
  assumes "CHR ''&'' \<notin> set a" "CHR ''&'' \<notin> set b"
  shows "replaceLiteral [CHR ''&'', c] out (a @ [CHR ''&'', c] @ b) = a @ out @ b"
proof -
  have "replaceLiteral [CHR ''&'', c] out (CHR ''&'' # c # b) = out @ replaceLiteral [CHR ''&'', c] out b"
    by simp
  with assms show ?thesis by (simp add: replaceLiteral_skip replaceLiteral_ampfree)
qed

lemma replaceLiteral_miss:
  assumes "CHR ''&'' \<notin> set a" "CHR ''&'' \<notin> set b" "c \<noteq> CHR ''&''"
    and "\<not> prefix p (c # b)"
  shows "replaceLiteral (CHR ''&'' # p) out (a @ [CHR ''&'', c] @ b) = a @ [CHR ''&'', c] @ b"
proof -
  from assms have "CHR ''&'' \<notin> set (c # b)" by simp
  then have "replaceLiteral (CHR ''&'' # p) out (c # b) = c # b"
    by (rule replaceLiteral_ampfree)
  with assms(4) have "replaceLiteral (CHR ''&'' # p) out (CHR ''&'' # c # b) = CHR ''&'' # c # b"
    by simp
  with assms(1) show ?thesis by (simp add: replaceLiteral_skip)
qed

text \<open>One pass of the loop on a text that holds a single placeholder.\<close>

lemma pass_ampfree:
  assumes "k < 88" "CHR ''&'' \<notin> set t"
  shows "replaceAll (compressionWildcardRegex ! k) t w = t"
  using assms by (simp add: compressionWildcardRegex_nth replaceLiteral_ampfree)

lemma pass_miss:
  assumes "k < 88" "i < 88" "k \<noteq> i \<or> WILDCARDS ! i \<in> set escapeRegexClass"
    and "CHR ''&'' \<notin> set a" "CHR ''&'' \<notin> set b"
  shows "replaceAll (compressionWildcardRegex ! k) (a @ [CHR ''&'', WILDCARDS ! i] @ b) w
           = a @ [CHR ''&'', WILDCARDS ! i] @ b"
proof -
  let ?c = "WILDCARDS ! i"
  have c: "?c \<noteq> CHR ''&''" using assms(2) by (rule wildcard_not_amp)
  have n2: "\<not> prefix ''$&'' (?c # b)" using assms(5) by (cases b) auto
  show ?thesis
  proof (cases "WILDCARDS ! k \<in> set escapeRegexClass")
    case True
    with assms(1) replaceLiteral_miss [OF assms(4,5) c n2] show ?thesis
      by (simp add: compressionWildcardRegex_nth)
  next
    case False
    with assms(1-3) have "WILDCARDS ! k \<noteq> ?c" using wildcards_differ by auto
    then have n1: "\<not> prefix [WILDCARDS ! k] (?c # b)" by simp
    with False assms(1) replaceLiteral_miss [OF assms(4,5) c n1] show ?thesis
      by (simp add: compressionWildcardRegex_nth)
  qed
qed

lemma pass_hit:
  assumes "i < 88" "WILDCARDS ! i \<notin> set escapeRegexClass" "CHR ''$'' \<notin> set w"
    and "CHR ''&'' \<notin> set a" "CHR ''&'' \<notin> set b"
  shows "replaceAll (compressionWildcardRegex ! i) (a @ [CHR ''&'', WILDCARDS ! i] @ b) w
           = a @ w @ b"
  using assms replaceLiteral_hit [OF assms(4,5), of "WILDCARDS ! i" w]
  by (simp add: compressionWildcardRegex_nth expand_plain)

lemma expandDict_ampfree:
  "n \<le> 88 \<Longrightarrow> CHR ''&'' \<notin> set t \<Longrightarrow> expandDict n dict t = Returns t"
  by (induction n) (simp_all add: length_compressionWildcardRegex pass_ampfree)

lemma expandDict_skip:
  assumes "i < 88" "CHR ''&'' \<notin> set a" "CHR ''&'' \<notin> set b"
  shows "lo \<le> n \<Longrightarrow> n \<le> 88 \<Longrightarrow>
         i < lo \<or> n \<le> i \<or> WILDCARDS ! i \<in> set escapeRegexClass \<Longrightarrow>
         expandDict n dict (a @ [CHR ''&'', WILDCARDS ! i] @ b)
           = expandDict lo dict (a @ [CHR ''&'', WILDCARDS ! i] @ b)"
proof (induction n)
  case 0
  then show ?case by simp
next
  case (Suc n)
  show ?case
  proof (cases "lo = Suc n")
    case True
    then show ?thesis by simp
  next
    case False
    with Suc.prems have l: "lo \<le> n" "n < 88"
      "n \<noteq> i \<or> WILDCARDS ! i \<in> set escapeRegexClass"
      "i < lo \<or> n \<le> i \<or> WILDCARDS ! i \<in> set escapeRegexClass" by auto
    have "replaceAll (compressionWildcardRegex ! n) (a @ [CHR ''&'', WILDCARDS ! i] @ b) (dict ! n)
            = a @ [CHR ''&'', WILDCARDS ! i] @ b"
      using l(2) assms(1) l(3) assms(2,3) by (rule pass_miss)
    with l Suc.IH show ?thesis by (simp add: length_compressionWildcardRegex)
  qed
qed

lemma expandDict_placeholder_remains:
  assumes n: "n \<le> 88" and ik: "i < k \<or> WILDCARDS ! k \<in> set escapeRegexClass" "i < n" "k < 88"
    and si: "WILDCARDS ! i \<notin> set escapeRegexClass"
    and wi: "dict ! i = pre @ [CHR ''&'', WILDCARDS ! k] @ post"
    and amp: "CHR ''&'' \<notin> set a" "CHR ''&'' \<notin> set b" "CHR ''&'' \<notin> set pre"
      "CHR ''&'' \<notin> set post"
    and dollar: "CHR ''$'' \<notin> set (dict ! i)"
  shows "expandDict n dict (a @ [CHR ''&'', WILDCARDS ! i] @ b)
           = Returns (a @ pre @ [CHR ''&'', WILDCARDS ! k] @ post @ b)"
proof -
  let ?T = "a @ [CHR ''&'', WILDCARDS ! i] @ b"
  let ?U = "(a @ pre) @ [CHR ''&'', WILDCARDS ! k] @ (post @ b)"
  from n ik have i88: "i < 88" by auto
  have ap: "CHR ''&'' \<notin> set (a @ pre)" "CHR ''&'' \<notin> set (post @ b)" using amp by auto
  have 1: "expandDict n dict ?T = expandDict (Suc i) dict ?T"
    using i88 amp(1,2) by (rule expandDict_skip) (use n ik in auto)
  have 2: "expandDict (Suc i) dict ?T = expandDict i dict ?U"
    using i88 pass_hit [OF i88 si dollar amp(1,2)] wi
    by (simp add: length_compressionWildcardRegex)
  have 3: "expandDict i dict ?U = expandDict 0 dict ?U"
    using ik(3) ap by (rule expandDict_skip) (use i88 ik in auto)
  from 1 2 3 show ?thesis by simp
qed

lemma regex2: "compressionWildcardRegex ! 2 = Literal ''&2''"
  by (simp add: compressionWildcardRegex_nth) (simp add: WILDCARDS_def escapeRegexClass_def)

lemma split_prefix_words:
  "split (concat (replicate n ''a|'') @ r) ''|'' = replicate n ''a'' @ split r ''|''"
proof (induction n)
  case 0
  show ?case by simp
next
  case (Suc n)
  then show ?case by (subst split.simps) (simp add: Let_def)
qed

lemma index_prefix_words:
  "0 \<le> index (CHR ''B'' # r) ''||'' \<Longrightarrow>
   index (concat (replicate n ''a|'') @ CHR ''B'' # r) ''||''
     = int (2 * n) + index (CHR ''B'' # r) ''||''"
proof (induction n)
  case 0
  show ?case by simp
next
  case (Suc n)
  have "\<not> prefix ''|'' (concat (replicate n ''a|'') @ CHR ''B'' # r)" by (cases n) auto
  with Suc show ?case by (simp add: Let_def)
qed

lemma small_reference_examples:
  "split (split ''A|0B|&&1||&2'' ''||'' ! 0) ''|'' = [''A'', ''0B'', ''&&1'']
   \<and> decompress ''A|0B|&&1||&2'' = Returns (Inr ''AB'')
   \<and> decompressBytes ''A|0B|&&1||&2'' = Returns (Inr ''AB'')
   \<and> split (split ''a$1b|x&0y||&1'' ''||'' ! 0) ''|'' = [''a$1b'', ''x&0y'']
   \<and> decompress ''a$1b|x&0y||&1'' = Returns (Inr ''xay'')"
proof -
  have s1: "split ''A|0B|&&1||&2'' ''||'' = [''A|0B|&&1'', ''&2'']"
    by (simp add: split.simps)
  have d1: "split ''A|0B|&&1'' ''|'' = [''A'', ''0B'', ''&&1'']"
    by (simp add: split.simps)
  have s2: "split ''a$1b|x&0y||&1'' ''||'' = [''a$1b|x&0y'', ''&1'']"
    by (simp add: split.simps)
  have d2: "split ''a$1b|x&0y'' ''|'' = [''a$1b'', ''x&0y'']"
    by (simp add: split.simps)
  have e: "expand ''a$1b'' ''&0'' = ''a''" "expand ''x&0y'' ''&1'' = ''x&0y''"
    by (simp_all add: extractVar_def isNameChar_def isDigit_def)
  have n: "Suc (Suc 0) = 2" by simp
  have r1: "decompress ''A|0B|&&1||&2'' = Returns (Inr ''AB'')"
    "decompressBytes ''A|0B|&&1||&2'' = Returns (Inr ''AB'')"
    by (simp_all add: decompress_def decompressBytes_def s1 d1 length_compressionWildcardRegex
        regex0 regex1 regex2 [folded n])
  have r2: "decompress ''a$1b|x&0y||&1'' = Returns (Inr ''xay'')"
    by (simp add: decompress_def s2 d2 length_compressionWildcardRegex regex0 regex1 e
        del: expand.simps)
  from s1 d1 s2 d2 r1 r2 show ?thesis by simp
qed

lemma wildcard_62_66: "WILDCARDS ! 62 = CHR ''[''" "WILDCARDS ! 66 = CHR ''%''"
  by (simp_all add: WILDCARDS_def)

lemma special_symbol_document:
  "split (concat (replicate 62 ''a|'') @ ''B|a|a|a|x&[y||&%'') ''||''
     = [concat (replicate 62 ''a|'') @ ''B|a|a|a|x&[y'', ''&%'']"
  "split (concat (replicate 62 ''a|'') @ ''B|a|a|a|x&[y'') ''|''
     = replicate 62 ''a'' @ [''B'', ''a'', ''a'', ''a'', ''x&[y'']"
proof -
  let ?p = "concat (replicate 62 ''a|'')"
  let ?s = "?p @ ''B|a|a|a|x&[y||&%''"
  have l: "length ?p = 124" using length_words [of 62] by simp
  have i0: "index ''B|a|a|a|x&[y||&%'' ''||'' = 12" by simp
  have i: "index ?s ''||'' = 136"
    using index_prefix_words [of "''|a|a|a|x&[y||&%''" 62] i0 by simp
  have t: "take 136 ?s = ?p @ ''B|a|a|a|x&[y''" using l by simp
  have d: "drop (136 + length ''||'') ?s = ''&%''" using l by simp
  have r: "split ''&%'' ''||'' = [''&%'']" by (simp add: split.simps)
  have "split ?s ''||'' = take (nat (index ?s ''||'')) ?s
          # split (drop (nat (index ?s ''||'') + length ''||'') ?s) ''||''"
    by (rule split_found) (simp_all add: i)
  then show "split ?s ''||'' = [?p @ ''B|a|a|a|x&[y'', ''&%'']"
    by (simp only: i nat_numeral t d r)
  have "split ''B|a|a|a|x&[y'' ''|'' = [''B'', ''a'', ''a'', ''a'', ''x&[y'']"
    by (simp add: split.simps)
  then show "split (?p @ ''B|a|a|a|x&[y'') ''|'' = replicate 62 ''a'' @ [''B'', ''a'', ''a'', ''a'', ''x&[y'']"
    by (simp only: split_prefix_words)
qed

lemma special_symbol_example:
  "decompress (concat (replicate 62 ''a|'') @ ''B|a|a|a|x&[y||&%'') = Returns (Inr ''x&[y'')"
proof -
  let ?dict = "replicate 62 ''a'' @ [''B'', ''a'', ''a'', ''a'', ''x&[y'']"
  have n: "length ?dict = 67" by simp
  have w: "?dict ! 66 = ''x'' @ [CHR ''&'', WILDCARDS ! 62] @ ''y''"
    by (simp add: nth_append wildcard_62_66)
  have c: "CHR ''['' \<in> set escapeRegexClass" "CHR ''%'' \<notin> set escapeRegexClass"
    by (simp_all add: escapeRegexClass_def)
  have "expandDict 67 ?dict ([] @ [CHR ''&'', WILDCARDS ! 66] @ [])
          = Returns ([] @ ''x'' @ [CHR ''&'', WILDCARDS ! 62] @ ''y'' @ [])"
    by (rule expandDict_placeholder_remains [where k = 62 and i = 66])
      (simp_all add: wildcard_62_66 c w nth_append)
  then have "expandDict 67 ?dict ''&%'' = Returns ''x&[y''"
    by (simp add: wildcard_62_66)
  then show ?thesis
    by (simp add: decompress_def special_symbol_document n del: replicate.simps)
qed

text \<open>The passes on a text given as tokens.\<close>

lemma full_resolve: "full tdict i = concat (map (resolve i tdict) (tdict ! i))"
  by (subst full.simps) (simp add: resolve_def [abs_def])

lemma passes_resolve: "passes n tdict toks = concat (map (resolve n tdict) toks)"
proof (induction n arbitrary: toks)
  case 0
  show ?case by (simp add: resolve_def [abs_def] split: token.splits) (induction toks, auto split: token.splits)
next
  case (Suc i)
  have r: "resolve (Suc i) tdict t
            = (if t = Ref i then concat (map (resolve i tdict) (tdict ! i)) else resolve i tdict t)" for t
    by (cases t) (auto simp: resolve_def full_resolve [symmetric])
  have "passes (Suc i) tdict toks = concat (map (resolve i tdict) (substT i (tdict ! i) toks))"
    by (simp add: Suc)
  also have "\<dots> = concat (map (resolve (Suc i) tdict) toks)"
    by (induction toks) (simp_all add: substT_def r)
  finally show ?case .
qed

lemma renderAll_Cons: "renderAll (t # ts) = render t @ renderAll ts"
  by (simp add: renderAll_def)

lemma renderAll_Nil: "renderAll [] = []"
  by (simp add: renderAll_def)

lemma renderAll_append: "renderAll (xs @ ys) = renderAll xs @ renderAll ys"
  by (simp add: renderAll_def)

lemma dollar_special: "CHR ''$'' \<in> set escapeRegexClass" "CHR ''$'' \<in> set WILDCARDS"
  by (simp_all add: escapeRegexClass_def WILDCARDS_def)

lemma replaceLiteral_other:
  "c \<noteq> CHR ''&'' \<Longrightarrow> replaceLiteral (CHR ''&'' # p) out (c # r) = c # replaceLiteral (CHR ''&'' # p) out r"
  by simp

text \<open>The pattern of matcher \<open>k\<close>, and what it does to one token followed by more text.\<close>

lemma replace_token:
  assumes k: "k < 88" and t: "wellFormed t"
    and pat: "pat = (if WILDCARDS ! k \<in> set escapeRegexClass then ''&$&'' else [CHR ''&'', WILDCARDS ! k])"
  shows "replaceLiteral pat out (render t @ r)
           = (if t = Ref k then out else render t) @ replaceLiteral pat out r"
proof (cases t)
  case (Txt x)
  with t pat show ?thesis by (auto simp: replaceLiteral_skip)
next
  case (Ref j)
  with t have j: "j < 88" "WILDCARDS ! j \<notin> set escapeRegexClass" by (simp_all add: length_WILDCARDS)
  then have c: "WILDCARDS ! j \<noteq> CHR ''&''" "WILDCARDS ! j \<noteq> CHR ''$''"
    using wildcard_not_amp dollar_special by auto
  show ?thesis
  proof (cases "j = k")
    case True
    with Ref j pat show ?thesis by simp
  next
    case False
    with j k have "WILDCARDS ! k \<noteq> WILDCARDS ! j" by (simp add: wildcards_differ)
    with False Ref c pat show ?thesis by auto
  qed
next
  case (Amp c)
  with t have c: "c \<notin> set WILDCARDS" "c \<noteq> CHR ''&''" by simp_all
  from k have "WILDCARDS ! k \<in> set WILDCARDS" by (simp add: length_WILDCARDS)
  with c have "c \<noteq> WILDCARDS ! k" "c \<noteq> CHR ''$''" using dollar_special by auto
  with Amp c pat show ?thesis by auto
qed

lemma pass_tokens:
  assumes "k < 88" "list_all wellFormed toks" "CHR ''$'' \<notin> set w"
  shows "replaceAll (compressionWildcardRegex ! k) (renderAll toks) w
           = renderAll (substT k [Txt w] toks)"
proof -
  let ?pat = "if WILDCARDS ! k \<in> set escapeRegexClass then ''&$&'' else [CHR ''&'', WILDCARDS ! k]"
  have "replaceLiteral ?pat w (renderAll toks) = renderAll (substT k [Txt w] toks)"
    using assms(2)
  proof (induction toks)
    case Nil
    show ?case by (simp add: renderAll_def substT_def)
  next
    case (Cons t toks)
    then have "wellFormed t" and ih: "replaceLiteral ?pat w (renderAll toks) = renderAll (substT k [Txt w] toks)"
      by simp_all
    from replace_token [OF assms(1) this(1) refl, of w "renderAll toks"] ih
    show ?case by (simp add: renderAll_def substT_def)
  qed
  with assms show ?thesis
    by (simp add: compressionWildcardRegex_nth expand_plain del: replaceLiteral.simps)
qed

lemma renderAll_substT:
  "renderAll (substT k ws toks) = concat (map (\<lambda>t. if t = Ref k then renderAll ws else render t) toks)"
  by (induction toks) (simp_all add: substT_def renderAll_def)

lemma pass_word:
  assumes "k < 88" "list_all wellFormed toks" "CHR ''$'' \<notin> set (renderAll ws)"
  shows "replaceAll (compressionWildcardRegex ! k) (renderAll toks) (renderAll ws)
           = renderAll (substT k ws toks)"
proof -
  have r: "renderAll [Txt x] = x" for x by (simp add: renderAll_def)
  have "renderAll (substT k [Txt (renderAll ws)] toks) = renderAll (substT k ws toks)"
    by (simp only: renderAll_substT r)
  with pass_tokens [OF assms] show ?thesis by simp
qed

lemma wellFormed_substT:
  "list_all wellFormed ws \<Longrightarrow> list_all wellFormed toks \<Longrightarrow> list_all wellFormed (substT k ws toks)"
  by (induction toks) (simp_all add: substT_def)

lemma expandDict_tokens:
  assumes d: "\<forall>w \<in> set tdict. list_all wellFormed w \<and> CHR ''$'' \<notin> set (renderAll w)"
  shows "n \<le> length tdict \<Longrightarrow> n \<le> 88 \<Longrightarrow> list_all wellFormed toks \<Longrightarrow>
         expandDict n (map renderAll tdict) (renderAll toks) = Returns (renderAll (passes n tdict toks))"
proof (induction n arbitrary: toks)
  case 0
  show ?case by simp
next
  case (Suc i)
  then have i: "i < length tdict" "i < 88" by simp_all
  then have w: "list_all wellFormed (tdict ! i)" "CHR ''$'' \<notin> set (renderAll (tdict ! i))"
    using d by simp_all
  have p: "replaceAll (compressionWildcardRegex ! i) (renderAll toks) (map renderAll tdict ! i)
            = renderAll (substT i (tdict ! i) toks)"
    using i(1) pass_word [OF i(2) Suc.prems(3) w(2)] by simp
  have "list_all wellFormed (substT i (tdict ! i) toks)"
    using w(1) Suc.prems(3) by (rule wellFormed_substT)
  with Suc.IH [of "substT i (tdict ! i) toks"] i
  have "expandDict i (map renderAll tdict) (renderAll (substT i (tdict ! i) toks))
          = Returns (renderAll (passes i tdict (substT i (tdict ! i) toks)))"
    by simp
  with i(2) p show ?case by (simp add: length_compressionWildcardRegex)
qed

subsection \<open>Sorting and formatting lemmas\<close>

lemma cardLess_irrefl: "\<not> cardLess a a"
  by (simp add: cardLess_def)

lemma cardLess_trans: "cardLess a b \<Longrightarrow> cardLess b c \<Longrightarrow> cardLess a c"
  by (auto simp: cardLess_def split: if_splits)

lemma cardLess_total: "a \<noteq> b \<Longrightarrow> cardLess a b \<or> cardLess b a"
  by (auto simp: cardLess_def)

lemma set_insertBy: "set (insertBy lessFn x ys) = insert x (set ys)"
  by (induction ys) auto

lemma distinct_insertBy: "distinct ys \<Longrightarrow> x \<notin> set ys \<Longrightarrow> distinct (insertBy lessFn x ys)"
  by (induction ys) (auto simp: set_insertBy)

lemma sorted_insertBy:
  "sorted_wrt cardLess ys \<Longrightarrow> x \<notin> set ys \<Longrightarrow> sorted_wrt cardLess (insertBy cardLess x ys)"
proof (induction ys)
  case Nil
  then show ?case by simp
next
  case (Cons y ys)
  show ?case
  proof (cases "cardLess x y")
    case True
    with Cons.prems show ?thesis by (auto intro: cardLess_trans)
  next
    case False
    with Cons.prems have "cardLess y x" using cardLess_total [of x y] by auto
    with False Cons show ?thesis by (auto simp: set_insertBy)
  qed
qed

lemma set_sortFunc: "set (sortFunc lessFn xs) = set xs"
  by (induction xs) (auto simp: sortFunc_def set_insertBy)

lemma distinct_sortFunc: "distinct xs \<Longrightarrow> distinct (sortFunc lessFn xs)"
  using set_sortFunc [of lessFn] by (induction xs) (auto simp: sortFunc_def distinct_insertBy)

lemma sorted_sortFunc: "distinct xs \<Longrightarrow> sorted_wrt cardLess (sortFunc cardLess xs)"
  using set_sortFunc [of cardLess] by (induction xs) (auto simp: sortFunc_def sorted_insertBy)

lemma sorted_cardLess_unique:
  "sorted_wrt cardLess xs \<Longrightarrow> sorted_wrt cardLess ys \<Longrightarrow> set xs = set ys \<Longrightarrow> xs = ys"
proof (induction xs arbitrary: ys)
  case Nil
  then show ?case by simp
next
  case (Cons x xs)
  then obtain y ys' where ys: "ys = y # ys'" by (cases ys) auto
  have xy: "x = y"
  proof (rule ccontr)
    assume ne: "x \<noteq> y"
    from Cons.prems ys ne have "x \<in> set ys'" "y \<in> set xs" by auto
    with Cons.prems ys have "cardLess y x" "cardLess x y" by auto
    then show False using cardLess_trans cardLess_irrefl by blast
  qed
  from Cons.prems have "x \<notin> set xs" using cardLess_irrefl by auto
  moreover from Cons.prems ys have "y \<notin> set ys'" using cardLess_irrefl by auto
  ultimately have "set xs = set ys'" using Cons.prems(3) ys xy by auto
  with Cons ys xy show ?case by auto
qed

lemma sortFunc_unique:
  "distinct xs \<Longrightarrow> distinct ys \<Longrightarrow> set xs = set ys \<Longrightarrow> sortFunc cardLess xs = sortFunc cardLess ys"
  by (rule sorted_cardLess_unique) (simp_all add: sorted_sortFunc set_sortFunc)

lemma writeCards_concat:
  "\<forall>k \<in> set ks. m k \<noteq> None \<Longrightarrow>
   writeCards ks m b =
     (b @ concat (map (\<lambda>k. if 0 < the (m k) then k @ '' x'' @ formatInt (the (m k)) @ [CHR 0x0A] else k) ks), None)"
  by (induction ks arbitrary: b) auto

subsection \<open>Lemmas relating the two pipelines\<close>

lemma decompress_eq: "decompress s = decompressBytes s"
  by (simp add: decompress_def decompressBytes_def)

lemma parseIntsFrom_readFrom: "readFrom s '','' readInt i acc = Some (parseIntsFrom s i acc)"
proof (induction "length s - i" arbitrary: i acc rule: less_induct)
  case less
  show ?case
  proof (cases "i < length s")
    case False
    then show ?thesis by (subst parseIntsFrom.simps, subst readFrom.simps) simp
  next
    case True
    let ?found = "int i + index (drop i s) '',''"
    let ?nextIndex = "if ?found < int i then length s else nat ?found"
    let ?val = "take (?nextIndex - i) (drop i s)"
    have p: "parseIntsFrom s i acc
               = (case parseInt ?val of Inl err \<Rightarrow> Inl err
                  | Inr x \<Rightarrow> parseIntsFrom s (?nextIndex + 1) (acc @ [x]))"
      using True by (subst parseIntsFrom.simps) (simp add: Let_def)
    have r: "readFrom s '','' readInt i acc
               = (case readInt ?val acc of Inl err \<Rightarrow> Some (Inl err)
                  | Inr st' \<Rightarrow> readFrom s '','' readInt (?nextIndex + length '','') st')"
      using True by (subst readFrom.simps) (simp add: Let_def)
    from True have "i \<le> ?nextIndex" by auto
    with True have m: "length s - (?nextIndex + 1) < length s - i" by arith
    show ?thesis
    proof (cases "parseInt ?val")
      case (Inl e)
      then have "readInt ?val acc = Inl e" by (simp add: readInt_def)
      with Inl show ?thesis by (simp only: p r sum.case)
    next
      case (Inr x)
      then have "readInt ?val acc = Inr (acc @ [x])" by (simp add: readInt_def)
      with Inr less.hyps [OF m, of "acc @ [x]"] show ?thesis
        by (simp only: p r sum.case) simp
    qed
  qed
qed

lemma parseCommaDelimitedIntegerArray_fields:
  "parseCommaDelimitedIntegerArray x
     = foldFields readInt (if x = ''-'' then [] else fields x '','') []"
proof -
  have "Some (parseIntsFrom x 0 []) = Some (foldFields readInt (fields (drop 0 x) '','') [])"
    by (simp only: parseIntsFrom_readFrom [symmetric]) (rule readFrom_fields, simp)
  then show ?thesis by (simp add: parseCommaDelimitedIntegerArray_def)
qed

lemma foldFields_readInt:
  "foldFields readInt F acc = Inr ds \<Longrightarrow>
   \<exists>d. ds = acc @ d \<and> list_all2 (\<lambda>f x. parseInt f = Inr x) F d"
proof (induction F arbitrary: acc)
  case Nil
  then show ?case by simp
next
  case (Cons f F)
  from Cons.prems obtain x where x: "parseInt f = Inr x"
    by (cases "parseInt f") (simp_all add: readInt_def)
  then have "readInt f acc = Inr (acc @ [x])" by (simp add: readInt_def)
  with Cons.prems have r: "foldFields readInt F (acc @ [x]) = Inr ds"
    by simp
  from Cons.IH [OF r] obtain d where "ds = (acc @ [x]) @ d" "list_all2 (\<lambda>f x. parseInt f = Inr x) F d"
    by blast
  with x show ?case by (intro exI [of _ "x # d"]) simp
qed

lemma foldFields_readCard: "foldFields readCard xs acc = Inr (acc @ xs)"
  by (induction xs arbitrary: acc) (simp_all add: readCard_def)

lemma parseCard_Nil: "parseCard [] = []"
  by (simp add: parseCard_def)

lemma parseCard_eq: "parseCard x = parseCardBytes x"
  by (simp add: parseCard_def parseCardBytes_def)

lemma cards_related:
  fixes tbl :: string
  defines "cardsB \<equiv> (if tbl = ''-'' then [] else fields tbl '';;'')"
    and "cardsS \<equiv> parseCards (splitDoubleSemicolonArray tbl)"
  shows "length cardsB \<le> length cardsS"
    and "n < length cardsB \<Longrightarrow> cardsS ! n = parseCardBytes (cardsB ! n)"
    and "length cardsB \<le> n \<Longrightarrow> n < length cardsS \<Longrightarrow> cardsS ! n = []"
proof -
  let ?ps = "split tbl '';;''"
  have ne: "?ps \<noteq> []" by (rule split_not_Nil) simp
  show "length cardsB \<le> length cardsS"
    by (simp add: cardsB_def cardsS_def fields_def parseCards_def splitDoubleSemicolonArray_def
        Let_def)
  show "cardsS ! n = parseCardBytes (cardsB ! n)" if "n < length cardsB"
    using that
    by (auto simp: cardsB_def cardsS_def fields_def parseCards_def splitDoubleSemicolonArray_def
        parseCard_eq nth_butlast Let_def split: if_splits)
  show "cardsS ! n = []" if "length cardsB \<le> n" "n < length cardsS"
  proof (cases "tbl = ''-''")
    case True
    with that show ?thesis by (simp add: cardsS_def parseCards_def splitDoubleSemicolonArray_def)
  next
    case False
    with that have l: "last ?ps = []" "n = length ?ps - 1"
      by (auto simp: cardsB_def cardsS_def fields_def parseCards_def splitDoubleSemicolonArray_def
          Let_def split: if_splits)
    with ne have "?ps ! n = []" by (simp add: last_conv_nth)
    with False that show ?thesis
      by (simp add: cardsS_def parseCards_def splitDoubleSemicolonArray_def parseCard_Nil)
  qed
qed

lemma countNames_dom_mono: "countNames cards d m = Inr m' \<Longrightarrow> dom m \<subseteq> dom m'"
proof (induction d arbitrary: m)
  case Nil
  then show ?case by simp
next
  case (Cons idx d)
  let ?m = "m(cards ! nat idx \<mapsto> (case m (cards ! nat idx) of None \<Rightarrow> 0 | Some c \<Rightarrow> c) + 1)"
  from Cons.prems have r: "countNames cards d ?m = Inr m'"
    by (simp add: Let_def split: if_splits)
  have "dom ?m \<subseteq> dom m'" using r by (rule Cons.IH)
  moreover have "dom m \<subseteq> dom ?m" by (simp only: dom_fun_upd) auto
  ultimately show ?case by (rule order_trans [rotated])
qed

lemma countNames_positive:
  "countNames cards d m = Inr m' \<Longrightarrow> \<forall>k v. m k = Some v \<longrightarrow> 0 < v \<Longrightarrow>
   \<forall>k v. m' k = Some v \<longrightarrow> 0 < v"
proof (induction d arbitrary: m)
  case Nil
  then show ?case by simp
next
  case (Cons idx d)
  let ?m = "m(cards ! nat idx \<mapsto> (case m (cards ! nat idx) of None \<Rightarrow> 0 | Some c \<Rightarrow> c) + 1)"
  from Cons.prems(1) have r: "countNames cards d ?m = Inr m'"
    by (simp add: Let_def split: if_splits)
  have pos: "0 < (case m (cards ! nat idx) of None \<Rightarrow> 0 | Some c \<Rightarrow> c) + 1"
  proof (cases "m (cards ! nat idx)")
    case None
    then show ?thesis by simp
  next
    case (Some c)
    with Cons.prems(2) have "0 < c" by blast
    with Some show ?thesis by simp
  qed
  have "\<forall>k v. ?m k = Some v \<longrightarrow> 0 < v"
    using Cons.prems(2) pos by simp
  from Cons.IH [OF r this] show ?case .
qed

lemma countNames_in_range:
  "\<forall>x \<in> set d. 0 \<le> x \<and> x < int (length cards) \<Longrightarrow> \<exists>m'. countNames cards d m = Inr m'"
  by (induction d arbitrary: m) (auto simp: Let_def)

lemma readIndex_counts:
  assumes "parseInt f = Inr x" "0 \<le> x" "x < int (length cardsB)"
    and "parseCardBytes (cardsB ! nat x) = name" "name \<noteq> []"
    and "distinct uniq" "set uniq = dom m"
  shows "\<exists>uniq'. readIndex cardsB f (m, uniq)
            = Inr (m(name \<mapsto> (case m name of None \<Rightarrow> 0 | Some c \<Rightarrow> c) + 1), uniq')
          \<and> distinct uniq' \<and> set uniq' = insert name (dom m)"
proof (cases "m name")
  case None
  with assms have "name \<notin> set uniq" by auto
  with assms None show ?thesis
    by (intro exI [of _ "uniq @ [name]"]) (auto simp: readIndex_def Let_def)
next
  case (Some ct)
  with assms have "name \<in> set uniq" by auto
  with assms Some show ?thesis
    by (intro exI [of _ uniq]) (auto simp: readIndex_def Let_def)
qed

lemma count_agree:
  assumes le: "length cardsB \<le> length cardsS"
    and same: "\<And>n. n < length cardsB \<Longrightarrow> cardsS ! n = parseCardBytes (cardsB ! n)"
    and extra: "\<And>n. length cardsB \<le> n \<Longrightarrow> n < length cardsS \<Longrightarrow> cardsS ! n = []"
  shows "list_all2 (\<lambda>f x. parseInt f = Inr x) F d \<Longrightarrow> distinct uniq \<Longrightarrow> set uniq = dom m \<Longrightarrow>
         countNames cardsS d m = Inr mS \<Longrightarrow> [] \<notin> dom mS \<Longrightarrow>
         \<exists>uniq'. foldFields (readIndex cardsB) F (m, uniq) = Inr (mS, uniq')
                 \<and> distinct uniq' \<and> set uniq' = dom mS"
proof (induction F d arbitrary: m uniq rule: list_all2_induct)
  case Nil
  then show ?case by simp
next
  case (Cons f F x d)
  let ?name = "cardsS ! nat x"
  let ?m = "m(?name \<mapsto> (case m ?name of None \<Rightarrow> 0 | Some c \<Rightarrow> c) + 1)"
  from Cons.prems(3) have rng: "0 \<le> x" "x < int (length cardsS)"
    and r: "countNames cardsS d ?m = Inr mS"
    by (simp_all add: Let_def split: if_splits)
  from countNames_dom_mono [OF r] have "?name \<in> dom mS" by auto
  with Cons.prems(4) have ne: "?name \<noteq> []" by auto
  have inB: "x < int (length cardsB)"
  proof (rule ccontr)
    assume "\<not> x < int (length cardsB)"
    with rng have "length cardsB \<le> nat x" "nat x < length cardsS" by auto
    then have "?name = []" by (rule extra)
    with ne show False by simp
  qed
  with rng have nm: "parseCardBytes (cardsB ! nat x) = ?name" using same [of "nat x"] by simp
  from readIndex_counts [OF Cons.hyps(1) rng(1) inB nm ne Cons.prems(1,2)]
  obtain uniq1 where u: "readIndex cardsB f (m, uniq) = Inr (?m, uniq1)"
    "distinct uniq1" "set uniq1 = insert ?name (dom m)" by blast
  from u(3) have "set uniq1 = dom ?m" by simp
  from Cons.IH [OF u(2) this r Cons.prems(4)]
  obtain uniq' where "foldFields (readIndex cardsB) F (?m, uniq1) = Inr (mS, uniq')"
    "distinct uniq'" "set uniq' = dom mS" by blast
  with u(1) show ?case by (intro exI [of _ uniq']) simp
qed

lemma readIndex_in_range:
  "readIndex cardsB f st = Inr st' \<Longrightarrow>
   \<exists>x. parseInt f = Inr x \<and> 0 \<le> x \<and> x < int (length cardsB)"
  by (cases "parseInt f") (auto simp: readIndex_def split: if_splits)

lemma byte_success_fields:
  "foldFields (readIndex cardsB) F st = Inr st' \<Longrightarrow>
   \<exists>d. foldFields readInt F acc = Inr (acc @ d) \<and> (\<forall>x \<in> set d. 0 \<le> x \<and> x < int (length cardsB))"
proof (induction F arbitrary: st acc)
  case Nil
  then show ?case by simp
next
  case (Cons f F)
  from Cons.prems obtain st1 where s1: "readIndex cardsB f st = Inr st1"
    and r: "foldFields (readIndex cardsB) F st1 = Inr st'"
    by (cases "readIndex cardsB f st") simp_all
  from readIndex_in_range [OF s1] obtain x where x: "parseInt f = Inr x" "0 \<le> x"
    "x < int (length cardsB)" by blast
  then have ri: "readInt f acc = Inr (acc @ [x])" by (simp add: readInt_def)
  from Cons.IH [OF r, of "acc @ [x]"] obtain d where
    "foldFields readInt F (acc @ [x]) = Inr ((acc @ [x]) @ d)"
    "\<forall>x \<in> set d. 0 \<le> x \<and> x < int (length cardsB)" by blast
  with x ri show ?case by (intro exI [of _ "x # d"]) simp
qed

lemma render_eq:
  assumes u: "distinct uniq" "set uniq = dom m"
    and pos: "\<forall>k v. m k = Some v \<longrightarrow> 0 < v"
    and k: "distinct keys" "set keys = dom m"
  shows "writeCards (sortFunc cardLess uniq) m [] = (getStableOutput keys m, None)"
proof -
  let ?sorted = "sortFunc cardLess uniq"
  have s: "sortFunc cardLess keys = ?sorted"
    using k u by (intro sortFunc_unique) simp_all
  have d: "\<forall>k \<in> set ?sorted. m k \<noteq> None" using u(2) by (auto simp: set_sortFunc)
  have l: "(if 0 < the (m k) then k @ '' x'' @ formatInt (the (m k)) @ [CHR 0x0A] else k)
           = k @ '' x'' @ formatInt (case m k of None \<Rightarrow> 0 | Some c \<Rightarrow> c) @ [CHR 0x0A]"
    if "k \<in> set ?sorted" for k
  proof -
    from that d obtain v where v: "m k = Some v" by auto
    with pos have "0 < v" by blast
    with v show ?thesis by simp
  qed
  have "writeCards ?sorted m []
          = ([] @ concat (map (\<lambda>k. if 0 < the (m k)
                                   then k @ '' x'' @ formatInt (the (m k)) @ [CHR 0x0A]
                                   else k) ?sorted), None)"
    using d by (rule writeCards_concat)
  also have "concat (map (\<lambda>k. if 0 < the (m k)
                               then k @ '' x'' @ formatInt (the (m k)) @ [CHR 0x0A]
                               else k) ?sorted)
             = getStableOutput keys m"
    unfolding getStableOutput_def s
    by (rule arg_cong [where f = concat], rule map_cong [OF refl]) (rule l)
  finally show ?thesis by simp
qed

lemma parse_fields:
  assumes "decompressBytes (buf d) = Returns (Inr decompressed)"
    and "2 \<le> length (split decompressed '';;;'')"
  shows "parse d =
     (case foldFields
             (readIndex (if split decompressed '';;;'' ! 1 = ''-'' then []
                         else fields (split decompressed '';;;'' ! 1) '';;''))
             (if split decompressed '';;;'' ! 0 = ''-'' then []
              else fields (split decompressed '';;;'' ! 0) '','')
             (Map.empty, []) of
        Inl err \<Rightarrow> Returns (d, Some err)
      | Inr (cardIdxCountMap, uniqueCardList) \<Rightarrow>
          (case writeCards (sortFunc cardLess uniqueCardList) cardIdxCountMap [] of
             (b, err) \<Rightarrow> Returns (d\<lparr>buf := b\<rparr>, err)))"
  using assms
  by (simp add: parse_def Let_def readDelimitedBytes_fields foldFields_readCard
      split: sum.splits prod.splits)

lemma string_success:
  assumes "decompressDeck s = Returns (Inr countMap)"
  obtains decompressed d where "decompress s = Returns (Inr decompressed)"
    and "2 \<le> length (split decompressed '';;;'')"
    and "parseCommaDelimitedIntegerArray (split decompressed '';;;'' ! 0) = Inr d"
    and "countNames (parseCards (splitDoubleSemicolonArray (split decompressed '';;;'' ! 1)))
           d Map.empty = Inr countMap"
  using assms
  by (auto simp: decompressDeck_def Let_def split: outcome.splits sum.splits if_splits)

lemma string_to_bytes:
  assumes s: "decompressDeck s = Returns (Inr countMap)"
    and e: "[] \<notin> dom countMap"
    and k: "distinct keys" "set keys = dom countMap"
  shows "parse (newDeck s)
           = Returns (\<lparr>buf = getStableOutput keys countMap, parseOnce = False\<rparr>, None)"
proof -
  from s obtain decompressed d where t: "decompress s = Returns (Inr decompressed)"
    and p: "2 \<le> length (split decompressed '';;;'')"
    and i: "parseCommaDelimitedIntegerArray (split decompressed '';;;'' ! 0) = Inr d"
    and c: "countNames (parseCards (splitDoubleSemicolonArray (split decompressed '';;;'' ! 1)))
              d Map.empty = Inr countMap"
    by (rule string_success)
  let ?idx = "split decompressed '';;;'' ! 0"
  let ?tbl = "split decompressed '';;;'' ! 1"
  let ?F = "if ?idx = ''-'' then [] else fields ?idx '',''"
  let ?cardsB = "if ?tbl = ''-'' then [] else fields ?tbl '';;''"
  let ?cardsS = "parseCards (splitDoubleSemicolonArray ?tbl)"
  from i have "foldFields readInt ?F [] = Inr d"
    by (simp only: parseCommaDelimitedIntegerArray_fields)
  from foldFields_readInt [OF this] have a: "list_all2 (\<lambda>f x. parseInt f = Inr x) ?F d" by simp
  have rel1: "length ?cardsB \<le> length ?cardsS" by (rule cards_related(1))
  have rel2: "\<And>n. n < length ?cardsB \<Longrightarrow> ?cardsS ! n = parseCardBytes (?cardsB ! n)"
    by (rule cards_related(2))
  have rel3: "\<And>n. length ?cardsB \<le> n \<Longrightarrow> n < length ?cardsS \<Longrightarrow> ?cardsS ! n = []"
    by (rule cards_related(3))
  have "\<exists>uniq'. foldFields (readIndex ?cardsB) ?F (Map.empty, []) = Inr (countMap, uniq')
                 \<and> distinct uniq' \<and> set uniq' = dom countMap"
    using rel1 rel2 rel3 a _ _ c e by (rule count_agree) simp_all
  then obtain uniq' where f: "foldFields (readIndex ?cardsB) ?F (Map.empty, []) = Inr (countMap, uniq')"
    and u: "distinct uniq'" "set uniq' = dom countMap" by blast
  have pos: "\<forall>k v. countMap k = Some v \<longrightarrow> 0 < v"
    using c by (rule countNames_positive) simp
  have w: "writeCards (sortFunc cardLess uniq') countMap [] = (getStableOutput keys countMap, None)"
    using u pos k by (rule render_eq)
  from t have b: "decompressBytes (buf (newDeck s)) = Returns (Inr decompressed)"
    by (simp add: decompress_eq newDeck_def)
  show ?thesis
    by (simp only: parse_fields [OF b p] f w sum.case prod.case) (simp add: newDeck_def)
qed

lemma count_restrict:
  assumes le: "length cardsB \<le> length cardsS"
    and same: "\<And>n. n < length cardsB \<Longrightarrow> cardsS ! n = parseCardBytes (cardsB ! n)"
  shows "list_all2 (\<lambda>f x. parseInt f = Inr x) F d \<Longrightarrow>
         foldFields (readIndex cardsB) F (mB, uniq) = Inr (mB', uniq') \<Longrightarrow>
         mB = mS |` (- {[]}) \<Longrightarrow> distinct uniq \<Longrightarrow> set uniq = dom mB \<Longrightarrow>
         \<exists>mS'. countNames cardsS d mS = Inr mS' \<and> mB' = mS' |` (- {[]})
                \<and> distinct uniq' \<and> set uniq' = dom mB'"
proof (induction F d arbitrary: mB uniq mS rule: list_all2_induct)
  case Nil
  then show ?case by simp
next
  case (Cons f F x d)
  from Cons.prems(1) obtain st1 where s1: "readIndex cardsB f (mB, uniq) = Inr st1"
    and r: "foldFields (readIndex cardsB) F st1 = Inr (mB', uniq')"
    by (cases "readIndex cardsB f (mB, uniq)") simp_all
  from readIndex_in_range [OF s1] Cons.hyps(1) have rng: "0 \<le> x" "x < int (length cardsB)" by auto
  let ?name = "cardsS ! nat x"
  let ?mS = "mS(?name \<mapsto> (case mS ?name of None \<Rightarrow> 0 | Some c \<Rightarrow> c) + 1)"
  from rng have nm: "parseCardBytes (cardsB ! nat x) = ?name" using same [of "nat x"] by simp
  from rng le have cS: "countNames cardsS (x # d) mS = countNames cardsS d ?mS"
    by (simp add: Let_def)
  show ?case
  proof (cases "?name = []")
    case True
    with s1 Cons.hyps(1) rng nm have "st1 = (mB, uniq)" by (simp add: readIndex_def)
    moreover from True Cons.prems(2) have "mB = ?mS |` (- {[]})" by (auto simp: restrict_map_def)
    ultimately obtain mS' where "countNames cardsS d ?mS = Inr mS'" "mB' = mS' |` (- {[]})"
      "distinct uniq'" "set uniq' = dom mB'"
      using Cons.IH [of mB uniq ?mS] r Cons.prems(3,4) by blast
    with cS show ?thesis by auto
  next
    case False
    from False Cons.prems(2) have l: "mB ?name = mS ?name" by (simp add: restrict_map_def)
    from readIndex_counts [OF Cons.hyps(1) rng nm False Cons.prems(3,4)]
    obtain uniq1 where u: "readIndex cardsB f (mB, uniq)
          = Inr (mB(?name \<mapsto> (case mB ?name of None \<Rightarrow> 0 | Some c \<Rightarrow> c) + 1), uniq1)"
      "distinct uniq1" "set uniq1 = insert ?name (dom mB)" by blast
    let ?mB = "mB(?name \<mapsto> (case mB ?name of None \<Rightarrow> 0 | Some c \<Rightarrow> c) + 1)"
    from u(1) s1 have st1: "st1 = (?mB, uniq1)" by simp
    have e: "?mB = ?mS |` (- {[]})"
      using False Cons.prems(2) l by (auto simp: restrict_map_def fun_eq_iff)
    from u(3) have "set uniq1 = dom ?mB" by simp
    from Cons.IH [OF r [unfolded st1] e u(2) this]
    obtain mS' where "countNames cardsS d ?mS = Inr mS'" "mB' = mS' |` (- {[]})"
      "distinct uniq'" "set uniq' = dom mB'" by blast
    with cS show ?thesis by auto
  qed
qed

lemma bytes_refine_string:
  assumes "parse (newDeck s) = Returns (d', None)"
  shows "\<exists>countMap. decompressDeck s = Returns (Inr countMap)
          \<and> (\<forall>keys. distinct keys \<and> set keys = dom countMap - {[]}
                \<longrightarrow> buf d' = getStableOutput keys (countMap |` (- {[]})))"
proof -
  from assms obtain decompressed where b: "decompressBytes s = Returns (Inr decompressed)"
    and p: "2 \<le> length (split decompressed '';;;'')"
    by (auto simp: parse_def newDeck_def Let_def split: outcome.splits sum.splits if_splits)
  let ?idx = "split decompressed '';;;'' ! 0"
  let ?tbl = "split decompressed '';;;'' ! 1"
  let ?F = "if ?idx = ''-'' then [] else fields ?idx '',''"
  let ?cardsB = "if ?tbl = ''-'' then [] else fields ?tbl '';;''"
  let ?cardsS = "parseCards (splitDoubleSemicolonArray ?tbl)"
  from b have b': "decompressBytes (buf (newDeck s)) = Returns (Inr decompressed)"
    by (simp add: newDeck_def)
  from assms obtain mB uniq where f: "foldFields (readIndex ?cardsB) ?F (Map.empty, []) = Inr (mB, uniq)"
    and w: "writeCards (sortFunc cardLess uniq) mB [] = (buf d', None)"
    unfolding parse_fields [OF b' p]
    by (cases "foldFields (readIndex ?cardsB) ?F (Map.empty, [])")
      (auto split: prod.splits)
  from byte_success_fields [OF f, of "[]"] obtain d where d: "foldFields readInt ?F [] = Inr d"
    by auto
  from foldFields_readInt [OF d] have a: "list_all2 (\<lambda>f x. parseInt f = Inr x) ?F d" by simp
  from d have i: "parseCommaDelimitedIntegerArray ?idx = Inr d"
    by (simp only: parseCommaDelimitedIntegerArray_fields)
  have rel1: "length ?cardsB \<le> length ?cardsS" by (rule cards_related(1))
  have rel2: "\<And>n. n < length ?cardsB \<Longrightarrow> ?cardsS ! n = parseCardBytes (?cardsB ! n)"
    by (rule cards_related(2))
  have "\<exists>mS'. countNames ?cardsS d Map.empty = Inr mS' \<and> mB = mS' |` (- {[]})
                \<and> distinct uniq \<and> set uniq = dom mB"
    using rel1 rel2 a f by (rule count_restrict) simp_all
  then obtain m where c: "countNames ?cardsS d Map.empty = Inr m" and e: "mB = m |` (- {[]})"
    and u: "distinct uniq" "set uniq = dom mB" by blast
  from c have "\<forall>k v. m k = Some v \<longrightarrow> 0 < v" by (rule countNames_positive) simp
  with e have pos: "\<forall>k v. mB k = Some v \<longrightarrow> 0 < v" by (auto simp: restrict_map_def split: if_splits)
  from b p i c have s: "decompressDeck s = Returns (Inr m)"
    by (simp add: decompressDeck_def decompress_eq Let_def)
  have "buf d' = getStableOutput keys (m |` (- {[]}))"
    if "distinct keys \<and> set keys = dom m - {[]}" for keys
  proof -
    from that e have k: "distinct keys" "set keys = dom mB" by auto
    from render_eq [OF u pos k] w e show ?thesis by simp
  qed
  with s show ?thesis by blast
qed

subsection \<open>The memoised decode\<close>

lemma Bytes_after_first:
  "parseOnce d \<Longrightarrow> Bytes d = (d, Returns (buf d, None))"
  by (simp add: Bytes_def)

lemma Bytes_sets_parseOnce: "parseOnce (fst (Bytes d))"
  using parse_not_Hangs [of d] by (auto simp: Bytes_def split: outcome.splits)

lemma Bytes_returns_buf:
  "snd (Bytes d) = Returns (b, e) \<Longrightarrow> b = buf (fst (Bytes d))"
  by (auto simp: Bytes_def split: outcome.splits if_splits)

text \<open>
  Whatever error the first call returns, the next call on the same deck returns the same
  bytes with a nil error: the error lives in the result variable of the call that ran the
  decode.
\<close>

lemma Bytes_error_not_kept:
  assumes "snd (Bytes d) = Returns (b, Some e)"
  shows "Bytes (fst (Bytes d)) = (fst (Bytes d), Returns (b, None))"
proof -
  from assms have "b = buf (fst (Bytes d))" by (rule Bytes_returns_buf)
  moreover have "parseOnce (fst (Bytes d))" by (rule Bytes_sets_parseOnce)
  ultimately show ?thesis by (simp add: Bytes_after_first)
qed




text \<open>
  C1. A deck whose first \<open>Bytes\<close> call fails is meant to fail on every later call (the
  comment in \<open>Bytes\<close>: ``if this fails once, it will fail every time''). The error is a
  result variable of the call that ran \<open>parse\<close>, however, and a later call, in which
  \<open>parseOnce\<close> skips the function, returns a nil error. On the empty document the first call
  returns the error \<open>invalid deck\<close>; the second call does not run the decode and returns the
  same bytes with no error.
\<close>

theorem Bytes_later_call_loses_error:
  "Bytes (newDeck []) = (\<lparr>buf = [], parseOnce = True\<rparr>, Returns ([], Some InvalidDeck))
   \<and> Bytes (fst (Bytes (newDeck []))) = (\<lparr>buf = [], parseOnce = True\<rparr>, Returns ([], None))"
  by (simp add: Bytes_def parse_empty) (simp add: newDeck_def)




subsection \<open>Decoding\<close>

text \<open>
  Every document whose decompressed text has no \<open>;;;\<close> makes \<open>parse\<close> read past the end
  of \<open>parts\<close>.
\<close>

lemma parse_without_separator:
  "decompressBytes (buf d) = Returns (Inr decompressed) \<Longrightarrow>
   length (split decompressed '';;;'') < 2 \<Longrightarrow> parse d = Panics"
  by (simp add: parse_def Let_def)

text \<open>
  C2. A document that decompresses but holds no \<open>;;;\<close> should fail with an error value, as
  a document without \<open>||\<close> does (\<open>decompressBytes\<close> checks \<open>len(parts) < 2\<close>). After the
  split on \<open>;;;\<close> there is no such check: \<open>parse\<close> reads \<open>parts[1]\<close> and panics, and so does
  \<open>decompressDeck\<close> once the index list has parsed. The minimal valid document \<open>||\<close> and
  the document of the specification's example show it.
\<close>

theorem missing_separator_panics:
  "decompressBytes ''||'' = Returns (Inr [])
   \<and> parse (newDeck ''||'') = Panics
   \<and> snd (Bytes (newDeck ''||'')) = Panics
   \<and> decompressDeck ''||'' = Panics
   \<and> parse (newDeck ''||I love love slay the relics and slay the spire'') = Panics"
proof -
  have s: "split ''||I love love slay the relics and slay the spire'' ''||''
             = [[], ''I love love slay the relics and slay the spire'']"
    by (simp add: split.simps)
  have d: "decompressBytes ''||'' = Returns (Inr [])" "decompress ''||'' = Returns (Inr [])"
    by (simp_all add: decompressBytes_def decompress_def split_two split.simps
        length_compressionWildcardRegex regex0)
  have p: "parse (newDeck ''||'') = Panics" by (rule parse_no_separator)
  have b: "snd (Bytes (newDeck ''||'')) = Panics"
    by (simp add: Bytes_def p) (simp add: newDeck_def)
  have c: "decompressDeck ''||'' = Panics"
    by (simp add: decompressDeck_def d split_empty split.simps
        parseCommaDelimitedIntegerArray_def parseIntsFrom.simps)
  have l: "parse (newDeck ''||I love love slay the relics and slay the spire'') = Panics"
    by (simp add: parse_def newDeck_def decompressBytes_def s split.simps
        length_compressionWildcardRegex regex0)
  from d(1) p b c l show ?thesis by blast
qed

text \<open>
  C3. Every index must lie within the card table, and an empty table with a non-empty index
  list must fail for index 0. \<open>parse\<close> does so for both spellings of an empty table, \<open>-\<close>
  and empty text, since \<open>readDelimitedBytes\<close> visits no field of either. \<open>decompressDeck\<close>
  does so for \<open>-\<close> only: \<open>splitDoubleSemicolonArray\<close> hands empty table text to
  \<open>strings.Split\<close>, which returns one empty entry, so index 0 is accepted and the empty name
  is counted.
\<close>

theorem empty_table_text_accepted:
  "decompressDeck ''||0;;;'' = Returns (Inr [[] \<mapsto> 1])
   \<and> snd (Bytes (newDeck ''||0;;;'')) = Returns (''||0;;;'', Some CardIndexOutOfBounds)
   \<and> decompressDeck ''||0;;;-'' = Returns (Inl CardIndexOutOfBounds)
   \<and> snd (Bytes (newDeck ''||0;;;-'')) = Returns (''||0;;;-'', Some CardIndexOutOfBounds)"
  by (rule empty_table_examples)

text \<open>
  C4. The small deck of the tests decodes to the counts card1: 3, card2: 2, card3: 1, and
  \<open>Bytes\<close> renders it as the three lines \<open>card1 x3\<close>, \<open>card2 x2\<close>, \<open>card3 x1\<close>, each ended
  by a line feed.
\<close>

theorem small_deck_decodes:
  "decompressDeck ''card|junk||0,1,1,0,2,0;;;&01;&1;x;;&02;&1;y;;&03;&1;z''
     = Returns (Inr [''card1'' \<mapsto> 3, ''card2'' \<mapsto> 2, ''card3'' \<mapsto> 1])
   \<and> Bytes (newDeck ''card|junk||0,1,1,0,2,0;;;&01;&1;x;;&02;&1;y;;&03;&1;z'')
     = (\<lparr>buf = ''card1 x3'' @ [CHR 0x0A] @ ''card2 x2'' @ [CHR 0x0A] @ ''card3 x1'' @ [CHR 0x0A],
          parseOnce = True\<rparr>,
        Returns (''card1 x3'' @ [CHR 0x0A] @ ''card2 x2'' @ [CHR 0x0A] @ ''card3 x1'' @ [CHR 0x0A], None))"
  using decompressDeck_small Bytes_small by (rule conjI)

text \<open>
  C5, as stated, fails. A placeholder in a dictionary word is replaced by later passes like
  any other text, so the text around it matters: in \<open>A|0B|&&1||&2\<close> word 2 is \<open>&&1\<close>, its
  placeholder \<open>&1\<close> becomes word 1, \<open>0B\<close>, and the ampersand before it then forms \<open>&0\<close>
  with the first character of that word, so the output is \<open>AB\<close> and word 1 is not in it.
  The replacement is also a template: in \<open>a$1b|x&0y||&1\<close> the back reference \<open>&0\<close> is
  replaced by \<open>a\<close>, not by word 0. And the matcher of a symbol that \<open>escapeRegex\<close> rewrites
  matches \<open>&$&\<close>, so the back reference \<open>&[\<close> to word 62 stays in the output.
\<close>

theorem back_reference_counterexamples:
  "split (split ''A|0B|&&1||&2'' ''||'' ! 0) ''|'' = [''A'', ''0B'', ''&&1'']
   \<and> decompress ''A|0B|&&1||&2'' = Returns (Inr ''AB'')
   \<and> decompressBytes ''A|0B|&&1||&2'' = Returns (Inr ''AB'')
   \<and> split (split ''a$1b|x&0y||&1'' ''||'' ! 0) ''|'' = [''a$1b'', ''x&0y'']
   \<and> decompress ''a$1b|x&0y||&1'' = Returns (Inr ''xay'')
   \<and> WILDCARDS ! 62 = CHR ''['' \<and> WILDCARDS ! 66 = CHR ''%''
   \<and> decompress (concat (replicate 62 ''a|'') @ ''B|a|a|a|x&[y||&%'') = Returns (Inr ''x&[y'')"
  using small_reference_examples wildcard_62_66 special_symbol_example by blast

text \<open>
  C5, amended. Take a document of at most 88 dictionary words whose body and words are
  well-formed token lists (every ampersand is followed, in the same word, by a character
  that is neither an ampersand nor a symbol that \<open>escapeRegex\<close> rewrites) and whose words hold
  no dollar sign. Its decompression is the body with every placeholder below the dictionary
  length resolved: the placeholder for word \<open>i\<close> becomes word \<open>i\<close> in which each placeholder
  for a strictly lower index \<open>j\<close> is resolved in the same way, and each placeholder for an index
  from \<open>i\<close> up is still there.
\<close>

theorem placeholders_resolved:
  assumes parts: "2 \<le> length (split s ''||'')"
    and dict: "split (split s ''||'' ! 0) ''|'' = map renderAll tdict" "length tdict \<le> length WILDCARDS"
    and body: "split s ''||'' ! 1 = renderAll body"
    and wf: "list_all wellFormed body" "\<forall>w \<in> set tdict. list_all wellFormed w"
    and dollar: "\<forall>w \<in> set tdict. CHR ''$'' \<notin> set (renderAll w)"
  shows "decompress s = Returns (Inr (renderAll (concat (map (resolve (length tdict) tdict) body))))
       \<and> decompressBytes s = Returns (Inr (renderAll (concat (map (resolve (length tdict) tdict) body))))
       \<and> (\<forall>i. full tdict i = concat (map (resolve i tdict) (tdict ! i)))
       \<and> (\<forall>i j. resolve i tdict (Ref j) = (if j < i then full tdict j else [Ref j]))"
proof -
  from wf(2) dollar
  have d: "\<forall>w \<in> set tdict. list_all wellFormed w \<and> CHR ''$'' \<notin> set (renderAll w)" by blast
  have "expandDict (length tdict) (map renderAll tdict) (renderAll body)
          = Returns (renderAll (passes (length tdict) tdict body))"
    using d _ _ wf(1) by (rule expandDict_tokens) (use dict(2) in \<open>simp_all add: length_WILDCARDS\<close>)
  then have e: "expandDict (length tdict) (map renderAll tdict) (renderAll body)
          = Returns (renderAll (concat (map (resolve (length tdict) tdict) body)))"
    by (simp only: passes_resolve)
  from parts dict(1) body e
  have 1: "decompress s = Returns (Inr (renderAll (concat (map (resolve (length tdict) tdict) body))))"
    "decompressBytes s = Returns (Inr (renderAll (concat (map (resolve (length tdict) tdict) body))))"
    by (simp_all add: decompress_def decompressBytes_def Let_def)
  have 2: "\<forall>i. full tdict i = concat (map (resolve i tdict) (tdict ! i))"
    by (simp add: full_resolve)
  have 3: "\<forall>i j. resolve i tdict (Ref j) = (if j < i then full tdict j else [Ref j])"
    by (simp add: resolve_def)
  from 1 2 3 show ?thesis by blast
qed

theorem placeholders_resolved_witness:
  "decompress ''love|I &0 it||say &1 !'' = Returns (Inr ''say I love it !'')
   \<and> decompressBytes ''x &1 y|B||<&0> & co'' = Returns (Inr ''<x &1 y> & co'')"
proof -
  let ?s = "''love|I &0 it||say &1 !''"
  let ?t = "''x &1 y|B||<&0> & co''"
  have s: "split ?s ''||'' = [''love|I &0 it'', ''say &1 !'']"
    "split ''love|I &0 it'' ''|'' = [''love'', ''I &0 it'']"
    "split ?t ''||'' = [''x &1 y|B'', ''<&0> & co'']"
    "split ''x &1 y|B'' ''|'' = [''x &1 y'', ''B'']"
    by (simp_all add: split.simps)
  have w: "WILDCARDS ! 0 = CHR ''0''" "WILDCARDS ! 1 = CHR ''1''" "WILDCARDS ! Suc 0 = CHR ''1''"
    "CHR '' '' \<notin> set WILDCARDS"
    by (simp_all add: WILDCARDS_def)
  have c: "CHR ''0'' \<notin> set escapeRegexClass" "CHR ''1'' \<notin> set escapeRegexClass"
    by (simp_all add: escapeRegexClass_def)
  have 1: "decompress ?s = Returns (Inr ''say I love it !'')"
  proof -
    let ?tdict = "[[Txt ''love''], [Txt ''I '', Ref 0, Txt '' it'']]"
    let ?body = "[Txt ''say '', Ref 1, Txt '' !'']"
    have p: "2 \<le> length (split ?s ''||'')" by (simp add: s)
    have d: "split (split ?s ''||'' ! 0) ''|'' = map renderAll ?tdict"
      by (simp add: s renderAll_def w)
    have l: "length ?tdict \<le> length WILDCARDS" by (simp add: length_WILDCARDS)
    have b: "split ?s ''||'' ! 1 = renderAll ?body" by (simp add: s renderAll_def w)
    have f: "list_all wellFormed ?body" "\<forall>w \<in> set ?tdict. list_all wellFormed w"
      by (simp_all add: length_WILDCARDS w c)
    have e: "\<forall>w \<in> set ?tdict. CHR ''$'' \<notin> set (renderAll w)"
      by (simp add: renderAll_def w)
    have f0: "full ?tdict 0 = [Txt ''love'']" by (subst full.simps) simp
    have f1: "full ?tdict (Suc 0) = [Txt ''I '', Txt ''love'', Txt '' it'']"
      by (subst full.simps) (simp add: f0)
    from placeholders_resolved [OF p d l b f e]
    have "decompress ?s = Returns (Inr (renderAll (concat (map (resolve (length ?tdict) ?tdict) ?body))))"
      by blast
    then show ?thesis by (simp add: resolve_def f1 renderAll_def)
  qed
  have 2: "decompressBytes ?t = Returns (Inr ''<x &1 y> & co'')"
  proof -
    let ?tdict = "[[Txt ''x '', Ref 1, Txt '' y''], [Txt ''B'']]"
    let ?body = "[Txt ''<'', Ref 0, Txt ''> '', Amp CHR '' '', Txt ''co'']"
    have p: "2 \<le> length (split ?t ''||'')" by (simp add: s)
    have d: "split (split ?t ''||'' ! 0) ''|'' = map renderAll ?tdict"
      by (simp add: s renderAll_def w)
    have l: "length ?tdict \<le> length WILDCARDS" by (simp add: length_WILDCARDS)
    have b: "split ?t ''||'' ! 1 = renderAll ?body" by (simp add: s renderAll_def w)
    have f: "list_all wellFormed ?body" "\<forall>w \<in> set ?tdict. list_all wellFormed w"
      by (simp_all add: length_WILDCARDS w c)
    have e: "\<forall>w \<in> set ?tdict. CHR ''$'' \<notin> set (renderAll w)"
      by (simp add: renderAll_def w)
    have f0: "full ?tdict 0 = [Txt ''x '', Ref 1, Txt '' y'']" by (subst full.simps) simp
    from placeholders_resolved [OF p d l b f e]
    have "decompressBytes ?t = Returns (Inr (renderAll (concat (map (resolve (length ?tdict) ?tdict) ?body))))"
      by blast
    then show ?thesis by (simp add: resolve_def f0 renderAll_def w del: One_nat_def)
  qed
  from 1 2 show ?thesis by (rule conjI)
qed

text \<open>
  C9, as stated, fails: the alphabet \<open>WILDCARDS\<close> has 88 symbols, not 90, so a dictionary of
  89 words (at most 90) already reads the matcher table out of bounds.
\<close>

theorem alphabet_has_88_symbols:
  "length (split (split (concat (replicate 88 ''a|'') @ ''a||'') ''||'' ! 0) ''|'') = 89
   \<and> decompressBytes (concat (replicate 88 ''a|'') @ ''a||'') = Panics
   \<and> decompress (concat (replicate 88 ''a|'') @ ''a||'') = Panics"
  by (simp add: decompressBytes_def decompress_def split_sep_words split_words Let_def
      expandDict_overflow length_compressionWildcardRegex map_outcome_Panics del: replicate.simps)

text \<open>
  C9, amended. The alphabet and the matcher table have 88 entries. For every input that
  contains \<open>||\<close>: when its dictionary part splits into at most 88 words, \<open>decompressBytes\<close>
  and \<open>decompress\<close> read the table in bounds only and return the decompressed text; when it
  splits into more than 88 words, both panic on the out-of-bounds read.
\<close>

theorem matcher_table_bounds:
  "2 \<le> length (split s ''||'') \<Longrightarrow>
     length WILDCARDS = 88 \<and> length compressionWildcardRegex = 88
     \<and> (length (split (split s ''||'' ! 0) ''|'') \<le> 88
          \<longrightarrow> (\<exists>t. decompressBytes s = Returns (Inr t)) \<and> (\<exists>t. decompress s = Returns (Inr t)))
     \<and> (88 < length (split (split s ''||'' ! 0) ''|'')
          \<longrightarrow> decompressBytes s = Panics \<and> decompress s = Panics)"
proof -
  assume a: "2 \<le> length (split s ''||'')"
  let ?dict = "split (split s ''||'' ! 0) ''|''"
  let ?body = "split s ''||'' ! 1"
  from a have b: "decompressBytes s = map_outcome Inr (expandDict (length ?dict) ?dict ?body)"
    by (simp add: decompressBytes_def Let_def)
  from a have c: "decompress s = map_outcome Inr (expandDict (length ?dict) ?dict ?body)"
    by (simp add: decompress_def Let_def)
  have fits: "(\<exists>t. decompressBytes s = Returns (Inr t)) \<and> (\<exists>t. decompress s = Returns (Inr t))"
    if "length ?dict \<le> 88"
  proof -
    from that obtain r where "expandDict (length ?dict) ?dict ?body = Returns r"
      using expandDict_fits [of "length ?dict" ?dict ?body]
      by (auto simp: length_compressionWildcardRegex)
    with b c show ?thesis by simp
  qed
  have over: "decompressBytes s = Panics \<and> decompress s = Panics" if "88 < length ?dict"
    using that b c by (simp add: expandDict_overflow length_compressionWildcardRegex)
  from fits over show ?thesis
    by (simp add: length_WILDCARDS length_compressionWildcardRegex)
qed

theorem matcher_table_bounds_witness:
  "2 \<le> length (split ''card|junk||0,1,1,0,2,0;;;&01;&1;x;;&02;&1;y;;&03;&1;z'' ''||'')
   \<and> length (split (split ''card|junk||0,1,1,0,2,0;;;&01;&1;x;;&02;&1;y;;&03;&1;z'' ''||'' ! 0) ''|'') = 2
   \<and> (\<exists>t. decompressBytes ''card|junk||0,1,1,0,2,0;;;&01;&1;x;;&02;&1;y;;&03;&1;z'' = Returns (Inr t))
   \<and> 2 \<le> length (split (concat (replicate 88 ''a|'') @ ''a||'') ''||'')
   \<and> length (split (split (concat (replicate 88 ''a|'') @ ''a||'') ''||'' ! 0) ''|'') = 89
   \<and> decompress (concat (replicate 88 ''a|'') @ ''a||'') = Panics"
proof -
  let ?s = "''card|junk||0,1,1,0,2,0;;;&01;&1;x;;&02;&1;y;;&03;&1;z''"
  let ?w = "concat (replicate 88 ''a|'') @ ''a||''"
  have s2: "2 \<le> length (split ?s ''||'')" by (simp add: split_small)
  have sd: "length (split (split ?s ''||'' ! 0) ''|'') = 2"
    by (simp add: split_small split_small_dict)
  have w2: "2 \<le> length (split ?w ''||'')" by (simp add: split_sep_words del: replicate.simps)
  have wd: "length (split (split ?w ''||'' ! 0) ''|'') = 89"
    by (simp add: split_sep_words split_words del: replicate.simps)
  from matcher_table_bounds [OF s2] sd
  have r1: "\<exists>t. decompressBytes ?s = Returns (Inr t)" by simp
  from matcher_table_bounds [OF w2] wd
  have r2: "decompress ?w = Panics" by simp
  from s2 sd r1 w2 wd r2 show ?thesis by blast
qed

subsection \<open>The two pipelines\<close>

text \<open>
  C10, as stated, fails. \<open>parse\<close> skips an index whose card has an empty name (the guard
  \<open>len(card) == 0\<close>), while \<open>decompressDeck\<close> counts the empty name: on \<open>||0;;;;x\<close> both
  succeed, the byte pipeline with no output and the string pipeline with the line \<open> x1\<close>.
  Nor do they fail on the same inputs: on \<open>||0;;;\<close> the string pipeline succeeds and the
  byte pipeline returns an error.
\<close>

theorem pipelines_differ:
  "snd (Bytes (newDeck ''||0;;;;x'')) = Returns ([], None)
   \<and> decompressDeck ''||0;;;;x'' = Returns (Inr [[] \<mapsto> 1])
   \<and> getStableOutput [[]] [[] \<mapsto> 1] = '' x1'' @ [CHR 0x0A]
   \<and> decompressDeck ''||0;;;'' = Returns (Inr [[] \<mapsto> 1])
   \<and> snd (Bytes (newDeck ''||0;;;'')) = Returns (''||0;;;'', Some CardIndexOutOfBounds)"
  using empty_name_example empty_table_examples by blast

text \<open>
  C10, amended. Whenever the string pipeline succeeds with a map that has no empty name
  as a key, the byte pipeline succeeds, and its bytes are the text that \<open>getStableOutput\<close>
  renders from that map, in whatever order Go ranges over the map's keys. Whenever the byte
  pipeline succeeds, the string pipeline succeeds as well, and the bytes are the text that
  \<open>getStableOutput\<close> renders from the string pipeline's map without the empty name.
\<close>

theorem pipelines_agree:
  "(decompressDeck s = Returns (Inr countMap) \<and> [] \<notin> dom countMap
      \<and> distinct keys \<and> set keys = dom countMap
    \<longrightarrow> Bytes (newDeck s)
          = (\<lparr>buf = getStableOutput keys countMap, parseOnce = True\<rparr>,
             Returns (getStableOutput keys countMap, None)))
   \<and> (snd (Bytes (newDeck s)) = Returns (b, None)
    \<longrightarrow> (\<exists>m. decompressDeck s = Returns (Inr m)
             \<and> (\<forall>ks. distinct ks \<and> set ks = dom m - {[]}
                   \<longrightarrow> b = getStableOutput ks (m |` (- {[]})))))"
proof (intro conjI impI)
  assume "decompressDeck s = Returns (Inr countMap) \<and> [] \<notin> dom countMap
      \<and> distinct keys \<and> set keys = dom countMap"
  then have "parse (newDeck s)
           = Returns (\<lparr>buf = getStableOutput keys countMap, parseOnce = False\<rparr>, None)"
    by (intro string_to_bytes) simp_all
  then show "Bytes (newDeck s)
          = (\<lparr>buf = getStableOutput keys countMap, parseOnce = True\<rparr>,
             Returns (getStableOutput keys countMap, None))"
    by (simp add: Bytes_def) (simp add: newDeck_def)
next
  assume "snd (Bytes (newDeck s)) = Returns (b, None)"
  then obtain d' where "parse (newDeck s) = Returns (d', None)" "buf d' = b"
    by (auto simp: Bytes_def newDeck_def split: outcome.splits)
  with bytes_refine_string [of s d']
  show "\<exists>m. decompressDeck s = Returns (Inr m)
             \<and> (\<forall>ks. distinct ks \<and> set ks = dom m - {[]}
                   \<longrightarrow> b = getStableOutput ks (m |` (- {[]})))"
    by simp
qed

theorem pipelines_agree_witness:
  "Bytes (newDeck ''card|junk||0,1,1,0,2,0;;;&01;&1;x;;&02;&1;y;;&03;&1;z'')
     = (\<lparr>buf = getStableOutput [''card3'', ''card1'', ''card2'']
                 [''card1'' \<mapsto> 3, ''card2'' \<mapsto> 2, ''card3'' \<mapsto> 1],
          parseOnce = True\<rparr>,
        Returns (getStableOutput [''card3'', ''card1'', ''card2'']
                   [''card1'' \<mapsto> 3, ''card2'' \<mapsto> 2, ''card3'' \<mapsto> 1], None))
   \<and> (\<exists>m. decompressDeck ''card|junk||0,1,1,0,2,0;;;&01;&1;x;;&02;&1;y;;&03;&1;z''
              = Returns (Inr m))"
proof -
  let ?s = "''card|junk||0,1,1,0,2,0;;;&01;&1;x;;&02;&1;y;;&03;&1;z''"
  let ?m = "[''card1'' \<mapsto> 3, ''card2'' \<mapsto> 2, ''card3'' \<mapsto> (1::int)]"
  let ?keys = "[''card3'', ''card1'', ''card2'']"
  have h: "decompressDeck ?s = Returns (Inr ?m) \<and> [] \<notin> dom ?m \<and> distinct ?keys
           \<and> set ?keys = dom ?m"
    using decompressDeck_small by auto
  have g: "snd (Bytes (newDeck ?s))
           = Returns (''card1 x3'' @ [CHR 0x0A] @ ''card2 x2'' @ [CHR 0x0A] @ ''card3 x1'' @ [CHR 0x0A], None)"
    by (simp add: Bytes_small)
  from pipelines_agree [of ?s ?m ?keys] h
  have 1: "Bytes (newDeck ?s)
          = (\<lparr>buf = getStableOutput ?keys ?m, parseOnce = True\<rparr>,
             Returns (getStableOutput ?keys ?m, None))"
    by blast
  from pipelines_agree [of ?s ?m ?keys] g
  have 2: "\<exists>m. decompressDeck ?s = Returns (Inr m)" by blast
  from 1 2 show ?thesis by (rule conjI)
qed

subsection \<open>The formatter\<close>

text \<open>
  C6. The formatter sorts the names by \<open>cardLess\<close>, a strict total order in which
  \<open>Ascender's Bane\<close> comes after every other name and all other names are compared
  bytewise: the sorted list holds the same names in strictly ascending \<open>cardLess\<close> order.
  In particular, whatever the order in which \<open>Zebra\<close>, \<open>Apple\<close> and \<open>Ascender's Bane\<close>
  were first seen and whatever their positive counts, the lines come out as Apple, Zebra,
  Ascender's Bane.
\<close>

theorem formatter_order:
  "distinct keys \<Longrightarrow>
     sorted_wrt cardLess (sortFunc cardLess keys)
     \<and> set (sortFunc cardLess keys) = set keys
     \<and> (\<forall>i j. cardLess i j \<longleftrightarrow> i \<noteq> ''Ascender's Bane'' \<and> (j = ''Ascender's Bane'' \<or> i < j))
     \<and> (set keys = {''Zebra'', ''Apple'', ''Ascender's Bane''}
          \<and> m ''Zebra'' = Some z \<and> m ''Apple'' = Some a \<and> m ''Ascender's Bane'' = Some b
          \<and> 0 < z \<and> 0 < a \<and> 0 < b
        \<longrightarrow> writeCards (sortFunc cardLess keys) m []
              = (''Apple x'' @ formatInt a @ [CHR 0x0A]
                 @ ''Zebra x'' @ formatInt z @ [CHR 0x0A]
                 @ ''Ascender's Bane x'' @ formatInt b @ [CHR 0x0A], None))"
proof -
  assume d: "distinct keys"
  have s: "sorted_wrt cardLess (sortFunc cardLess keys)" using d by (rule sorted_sortFunc)
  have e: "set (sortFunc cardLess keys) = set keys" by (rule set_sortFunc)
  have o: "\<forall>i j. cardLess i j \<longleftrightarrow> i \<noteq> ''Ascender's Bane'' \<and> (j = ''Ascender's Bane'' \<or> i < j)"
    by (auto simp: cardLess_def)
  have w: "writeCards (sortFunc cardLess keys) m []
              = (''Apple x'' @ formatInt a @ [CHR 0x0A]
                 @ ''Zebra x'' @ formatInt z @ [CHR 0x0A]
                 @ ''Ascender's Bane x'' @ formatInt b @ [CHR 0x0A], None)"
    if k: "set keys = {''Zebra'', ''Apple'', ''Ascender's Bane''}"
      and m: "m ''Zebra'' = Some z" "m ''Apple'' = Some a" "m ''Ascender's Bane'' = Some b"
      and p: "0 < z" "0 < a" "0 < b"
  proof -
    have "sorted_wrt cardLess [''Apple'', ''Zebra'', ''Ascender's Bane'']"
      by (simp add: cardLess_def)
    moreover have "set (sortFunc cardLess keys) = set [''Apple'', ''Zebra'', ''Ascender's Bane'']"
      using e k by auto
    ultimately have "sortFunc cardLess keys = [''Apple'', ''Zebra'', ''Ascender's Bane'']"
      using s by (intro sorted_cardLess_unique)
    then show ?thesis using m p by simp
  qed
  from s e o w show ?thesis by blast
qed

theorem formatter_order_witness:
  "distinct [''Zebra'', ''Ascender's Bane'', ''Apple'']
   \<and> sortFunc cardLess [''Zebra'', ''Ascender's Bane'', ''Apple'']
       = [''Apple'', ''Zebra'', ''Ascender's Bane'']
   \<and> writeCards (sortFunc cardLess [''Zebra'', ''Ascender's Bane'', ''Apple''])
        [''Zebra'' \<mapsto> 1, ''Apple'' \<mapsto> 1, ''Ascender's Bane'' \<mapsto> 7] []
       = (''Apple x1'' @ [CHR 0x0A] @ ''Zebra x1'' @ [CHR 0x0A] @ ''Ascender's Bane x7'' @ [CHR 0x0A], None)"
proof -
  have d: "distinct [''Zebra'', ''Ascender's Bane'', ''Apple'']" by simp
  have f: "formatInt 1 = ''1''" "formatInt 7 = ''7''"
    by (simp_all add: formatInt_def digits.simps digitChar_def)
  have k: "set [''Zebra'', ''Ascender's Bane'', ''Apple''] = {''Zebra'', ''Apple'', ''Ascender's Bane''}"
    by auto
  have srt: "sortFunc cardLess [''Zebra'', ''Ascender's Bane'', ''Apple'']
       = [''Apple'', ''Zebra'', ''Ascender's Bane'']"
    by (simp add: sortFunc_def cardLess_def)
  from formatter_order [OF d, of "[''Zebra'' \<mapsto> 1, ''Apple'' \<mapsto> 1, ''Ascender's Bane'' \<mapsto> 7]" 1 1 7] k
  have "writeCards (sortFunc cardLess [''Zebra'', ''Ascender's Bane'', ''Apple''])
        [''Zebra'' \<mapsto> 1, ''Apple'' \<mapsto> 1, ''Ascender's Bane'' \<mapsto> 7] []
       = (''Apple x1'' @ [CHR 0x0A] @ ''Zebra x1'' @ [CHR 0x0A] @ ''Ascender's Bane x7'' @ [CHR 0x0A], None)"
    by (simp add: f)
  with d srt show ?thesis by blast
qed


text \<open>
  C7, as stated, fails: for a name whose count is 0 the loop appends the name alone, with
  no count and also no line feed, since the line feed is appended inside the
  \<open>cardCount > 0\<close> branch.
\<close>

theorem writeCards_zero_count_no_newline:
  "writeCards [''Strike''] [''Strike'' \<mapsto> 0] [] = (''Strike'', None)
   \<and> fst (writeCards [''Strike''] [''Strike'' \<mapsto> 0] []) \<noteq> ''Strike'' @ [CHR 0x0A]"
  by simp


text \<open>
  C7, amended. For every name whose count is greater than 0 the output gains the line
  \<open>name x count\<close> and a line feed; for every name whose count is 0 (or less) it gains the
  name only, with neither a count suffix nor a line feed.
\<close>

theorem writeCards_line_per_key:
  "\<forall>k \<in> set ks. m k \<noteq> None \<Longrightarrow>
   writeCards ks m b =
     (b @ concat (map (\<lambda>k. if 0 < the (m k) then k @ '' x'' @ formatInt (the (m k)) @ [CHR 0x0A]
                              else k) ks), None)"
  by (rule writeCards_concat)

theorem writeCards_line_per_key_witness:
  "writeCards [''Defend'', ''Strike''] [''Defend'' \<mapsto> 0, ''Strike'' \<mapsto> 12] []
     = (''DefendStrike x12'' @ [CHR 0x0A], None)"
  using writeCards_line_per_key [of "[''Defend'', ''Strike'']" "[''Defend'' \<mapsto> 0, ''Strike'' \<mapsto> 12]" "[]"]
  by (simp add: formatInt_def digits.simps digitChar_def)

end
